theory Spec2Isabelle
  imports Complex_Main
begin

section \<open>Band-structure scripts of CoFeMnTi: the segmenter and the file readers\<close>

subsection \<open>IEEE doubles, as far as comparison sees them\<close>

text \<open>
  The k-coordinates and energies are numpy float64 values. The segmenter only compares
  them, so a double is modelled by what \<open><\<close>, \<open><=\<close> and \<open>==\<close> can observe: it is a
  NaN, an infinity, or a finite value (a real number; both zeros are \<open>Finite 0\<close>).
  Every comparison with a NaN is false.
\<close>

datatype float64 = NaN | NegInf | Finite real | PosInf

fun flt_lt :: "float64 \<Rightarrow> float64 \<Rightarrow> bool" where
  "flt_lt (Finite x) (Finite y) = (x < y)"
| "flt_lt NegInf (Finite y) = True"
| "flt_lt NegInf PosInf = True"
| "flt_lt (Finite x) PosInf = True"
| "flt_lt _ _ = False"

definition flt_eq :: "float64 \<Rightarrow> float64 \<Rightarrow> bool" where
  "flt_eq a b = (a \<noteq> NaN \<and> a = b)"

definition flt_le :: "float64 \<Rightarrow> float64 \<Rightarrow> bool" where
  "flt_le a b = (flt_lt a b \<or> flt_eq a b)"

subsection \<open>The segmenter: \<open>plot_bands_improved\<close>, lines 32 to 46\<close>

text \<open>
  \<^verbatim>\<open>
    band_breaks = [0]
    for i in range(1, len(k_coord)):
        if k_coord[i] < k_coord[i-1]:
            band_breaks.append(i)
    band_breaks.append(len(k_coord))
  \<close>
  The loop body is \<open>breaks_step\<close>, threading the list \<open>band_breaks\<close>; the index \<open>i\<close>
  runs over \<open>range(1, len(k_coord))\<close>, so both reads are in range.
\<close>

definition breaks_step :: "float64 list \<Rightarrow> nat \<Rightarrow> nat list \<Rightarrow> nat list" where
  "breaks_step k_coord i band_breaks =
     (if flt_lt (k_coord ! i) (k_coord ! (i - 1)) then band_breaks @ [i] else band_breaks)"

definition band_breaks :: "float64 list \<Rightarrow> nat list" where
  "band_breaks k_coord =
     fold (breaks_step k_coord) [1..<length k_coord] [0] @ [length k_coord]"

text \<open>
  A slice \<open>xs[start:stop]\<close> with non-negative bounds: Python and numpy clamp the bounds
  to the length and give the empty sequence when \<open>stop <= start\<close>.
\<close>

definition slice :: "'a list \<Rightarrow> nat \<Rightarrow> nat \<Rightarrow> 'a list" where
  "slice xs start stop = take (stop - start) (drop start xs)"

text \<open>
  \<^verbatim>\<open>
    for i in range(len(band_breaks)-1):
        start_idx = band_breaks[i]
        end_idx = band_breaks[i+1]
        k_segment = k_coord[start_idx:end_idx]
        e_segment = energy[start_idx:end_idx] ...
  \<close>
  \<open>band_segments\<close> is the sequence of the pairs of slices the loop takes, one per
  iteration, in iteration order.
\<close>

definition segment_at :: "float64 list \<Rightarrow> float64 list \<Rightarrow> nat list \<Rightarrow> nat
    \<Rightarrow> float64 list \<times> float64 list" where
  "segment_at k_coord energy bb i =
     (let start_idx = bb ! i; end_idx = bb ! (i + 1)
      in (slice k_coord start_idx end_idx, slice energy start_idx end_idx))"

definition band_segments :: "float64 list \<Rightarrow> float64 list
    \<Rightarrow> (float64 list \<times> float64 list) list" where
  "band_segments k_coord energy =
     (let bb = band_breaks k_coord
      in map (segment_at k_coord energy bb) [0..<length bb - 1])"

text \<open>
  The test of line 34 at index \<open>i\<close>, named for the proofs: the k-coordinate at \<open>i\<close> is
  strictly below the one before it.
\<close>

definition descent :: "float64 list \<Rightarrow> nat \<Rightarrow> bool" where
  "descent k_coord i = flt_lt (k_coord ! i) (k_coord ! (i - 1))"

text \<open>
  Where the segments begin in the input: the segment number \<open>m\<close> begins behind the
  samples of the segments before it. A split immediately before index \<open>i\<close> is a segment
  that begins at \<open>i\<close>.
\<close>

definition segment_starts :: "'a list list \<Rightarrow> nat list" where
  "segment_starts segs = map (\<lambda>m. length (concat (take m segs))) [0..<length segs]"

subsection \<open>The renderer: the plotting loops of both scripts\<close>

text \<open>
  \<^verbatim>\<open>
    for i in range(len(band_breaks)-1):
        start_idx = band_breaks[i]
        end_idx = band_breaks[i+1]
        k_segment = k_coord[start_idx:end_idx]
        e_segment = energy[start_idx:end_idx] - fermi_energy
        if len(k_segment) > 1:
            plt.plot(k_segment, e_segment, 'b-', linewidth=1.2, alpha=0.8)
  \<close>
  The effect of \<open>plt.plot\<close> is one more line on the figure, so the state threaded through
  the loop is the list of lines drawn so far. The subtraction of the Fermi energy is IEEE
  arithmetic on every energy of the slice; the comparison view of a double cannot compute
  it, so it is the parameter \<open>shift\<close>.

  \<open>plot_bands_improved\<close> (lines 41 to 49) shifts each slice. The left panel of
  \<open>plot_spin_resolved_bands\<close> (line 55 and lines 67 to 75) shifts the whole energy column
  first and then plots the slices unchanged.
\<close>

definition plot_step :: "(float64 \<Rightarrow> float64) \<Rightarrow> float64 list \<Rightarrow> float64 list \<Rightarrow> nat list
    \<Rightarrow> nat \<Rightarrow> (float64 list \<times> float64 list) list \<Rightarrow> (float64 list \<times> float64 list) list" where
  "plot_step shift k_coord energy bb i lines =
     (let start_idx = bb ! i; end_idx = bb ! (i + 1);
          k_segment = slice k_coord start_idx end_idx;
          e_segment = map shift (slice energy start_idx end_idx)
      in if length k_segment > 1 then lines @ [(k_segment, e_segment)] else lines)"

definition plot_bands_improved :: "(float64 \<Rightarrow> float64) \<Rightarrow> float64 list \<Rightarrow> float64 list
    \<Rightarrow> (float64 list \<times> float64 list) list" where
  "plot_bands_improved sub_fermi k_coord energy =
     (let bb = band_breaks k_coord
      in fold (plot_step sub_fermi k_coord energy bb) [0..<length bb - 1] [])"

definition plot_spin_resolved_bands :: "(float64 \<Rightarrow> float64) \<Rightarrow> float64 list \<Rightarrow> float64 list
    \<Rightarrow> (float64 list \<times> float64 list) list" where
  "plot_spin_resolved_bands sub_fermi k_coord energy_raw =
     (let energy = map sub_fermi energy_raw; bb = band_breaks k_coord
      in fold (plot_step (\<lambda>e. e) k_coord energy bb) [0..<length bb - 1] [])"

subsection \<open>Python strings and exceptions used by the readers\<close>

text \<open>
  The two readers raise no exception of their own: what can fail is an index out of range
  (\<open>IndexError\<close>) and \<open>float\<close> on a text that is no number (\<open>ValueError\<close>). A result is
  \<open>Inl\<close> of the exception raised or \<open>Inr\<close> of the value returned.

  A string is the list of its characters, taken as code points below 256. The white
  space of \<open>str.strip()\<close> and \<open>str.split()\<close> in that range is the set of \<open>is_space\<close>.
\<close>

datatype py_error = IndexError | ValueError

definition is_space :: "char \<Rightarrow> bool" where
  "is_space c = (c \<in> set [CHR 0x09, CHR 0x0A, CHR 0x0B, CHR 0x0C, CHR 0x0D,
                          CHR 0x1C, CHR 0x1D, CHR 0x1E, CHR 0x1F, CHR 0x20, CHR 0x85, CHR 0xA0])"

text \<open>\<open>s.strip()\<close>: the white space at both ends is removed.\<close>

definition strip :: "string \<Rightarrow> string" where
  "strip s = rev (dropWhile is_space (rev (dropWhile is_space s)))"

text \<open>\<open>s.startswith(p)\<close>.\<close>

definition startswith :: "string \<Rightarrow> string \<Rightarrow> bool" where
  "startswith s p = (take (length p) s = p)"

text \<open>
  \<open>s.split()\<close> with no separator: the maximal runs of characters that are not white space,
  in order; no field is empty. \<open>cur\<close> is the field being read, reversed.
\<close>

fun split_ws_from :: "string \<Rightarrow> string \<Rightarrow> string list" where
  "split_ws_from cur [] = (if cur = [] then [] else [rev cur])"
| "split_ws_from cur (c # cs) =
     (if is_space c then (if cur = [] then split_ws_from [] cs else rev cur # split_ws_from [] cs)
      else split_ws_from (c # cur) cs)"

definition split_ws :: "string \<Rightarrow> string list" where
  "split_ws s = split_ws_from [] s"

text \<open>
  \<open>s.split(sep)\<close> for a separator that is not empty (the separators of this program are
  the literals \<open>'EFermi ='\<close> and \<open>'eV'\<close>): the text is scanned from the left, every
  occurrence found ends a piece and the scan goes on behind it. \<open>cur\<close> is the piece being
  read, reversed. The result always has at least one piece.
\<close>

function split_from :: "string \<Rightarrow> string \<Rightarrow> string \<Rightarrow> string list" where
  "split_from sep cur [] = [rev cur]"
| "split_from sep cur (c # cs) =
     (if sep \<noteq> [] \<and> startswith (c # cs) sep
      then rev cur # split_from sep [] (drop (length sep) (c # cs))
      else split_from sep (c # cur) cs)"
  by pat_completeness auto
termination
  by (relation "measure (\<lambda>(sep, cur, s). length s)") (auto simp add: neq_Nil_conv)

definition split :: "string \<Rightarrow> string \<Rightarrow> string list" where
  "split s sep = split_from sep [] s"

text \<open>\<open>xs[i]\<close> for an index that is not negative: \<open>IndexError\<close> when out of range.\<close>

definition item :: "'a list \<Rightarrow> nat \<Rightarrow> py_error + 'a" where
  "item xs i = (if i < length xs then Inr (xs ! i) else Inl IndexError)"

text \<open>
  \<open>float(s)\<close>. Which texts Python reads as a number, and as which double, is the parameter
  \<open>float_of\<close> (\<open>None\<close> where \<open>float\<close> raises \<open>ValueError\<close>), so every theorem below holds
  for Python's own \<open>float\<close>.
\<close>

definition float_or_raise :: "(string \<Rightarrow> 'f option) \<Rightarrow> string \<Rightarrow> py_error + 'f" where
  "float_or_raise float_of s = (case float_of s of None \<Rightarrow> Inl ValueError | Some v \<Rightarrow> Inr v)"

text \<open>
  For the statements about the markers: \<open>sep in s\<close>; the text of \<open>s\<close> before the first
  occurrence of \<open>sep\<close> (all of \<open>s\<close> when there is none); and the text of \<open>s\<close> behind the
  first occurrence of \<open>sep\<close>, when there is one.
\<close>

fun contains :: "string \<Rightarrow> string \<Rightarrow> bool" where
  "contains [] sep = (sep = [])"
| "contains (c # cs) sep = (startswith (c # cs) sep \<or> contains cs sep)"

fun before :: "string \<Rightarrow> string \<Rightarrow> string" where
  "before [] sep = []"
| "before (c # cs) sep = (if startswith (c # cs) sep then [] else c # before cs sep)"

fun after :: "string \<Rightarrow> string \<Rightarrow> string option" where
  "after [] sep = None"
| "after (c # cs) sep =
     (if startswith (c # cs) sep then Some (drop (length sep) (c # cs)) else after cs sep)"

text \<open>
  To run the readers on concrete files, \<open>float_decimal\<close> is \<open>float\<close> on the plain
  unsigned decimals \<open>12\<close>, \<open>12.345\<close>, \<open>12.\<close> and \<open>.5\<close>, with the decimal's value for the
  double that Python rounds it to. On every other text it answers \<open>None\<close>; among those,
  Python's \<open>float\<close> accepts signs, exponents, \<open>inf\<close>, \<open>nan\<close>, underscores between digits and
  white space around the number, so \<open>float_decimal\<close> is used on plain decimals and on texts
  with a letter that is none of these (\<open>abc\<close>) only.
\<close>

definition is_digit :: "char \<Rightarrow> bool" where
  "is_digit c = (c \<in> set ''0123456789'')"

definition digit_value :: "char \<Rightarrow> nat" where
  "digit_value c = of_char c - 48"

definition digits_value :: "string \<Rightarrow> nat" where
  "digits_value s = foldl (\<lambda>a c. 10 * a + digit_value c) 0 s"

definition float_decimal :: "string \<Rightarrow> float64 option" where
  "float_decimal s =
     (let ip = takeWhile is_digit s; rest = dropWhile is_digit s
      in if rest = [] then (if ip = [] then None else Some (Finite (real (digits_value ip))))
         else if hd rest = CHR ''.'' \<and> list_all is_digit (tl rest) \<and> \<not> (ip = [] \<and> tl rest = [])
         then Some (Finite (real (digits_value (ip @ tl rest)) / 10 ^ length (tl rest)))
         else None)"

subsection \<open>The Fermi-energy reader: \<open>read_dos_fermi\<close>\<close>

text \<open>
  \<^verbatim>\<open>
    def read_dos_fermi(filename):
        with open(filename, 'r') as f:
            header = f.readline()
            fermi_str = header.split('EFermi =')[1].split('eV')[0].strip()
            fermi_energy = float(fermi_str)
        return fermi_energy
  \<close>
  The same two lines open \<open>read_dos_file\<close> of \<open>plot_dos_pdos.py\<close>. The model starts from
  \<open>header\<close>, the first line of the file as \<open>readline\<close> returns it.
\<close>

definition read_dos_fermi :: "(string \<Rightarrow> 'f option) \<Rightarrow> string \<Rightarrow> py_error + 'f" where
  "read_dos_fermi float_of header =
     (case item (split header ''EFermi ='') 1 of
        Inl err \<Rightarrow> Inl err
      | Inr after_marker \<Rightarrow>
          (case item (split after_marker ''eV'') 0 of
             Inl err \<Rightarrow> Inl err
           | Inr before_unit \<Rightarrow> float_or_raise float_of (strip before_unit)))"

subsection \<open>The band-file reader: \<open>read_bands_data\<close>\<close>

text \<open>
  \<^verbatim>\<open>
    def read_bands_data(filename):
        with open(filename, 'r') as f:
            lines = f.readlines()
        data_lines = []
        for line in lines:
            line = line.strip()
            if line and not line.startswith('#'):
                data_lines.append(line)
        data = []
        for line in data_lines:
            parts = line.split()
            if len(parts) >= 2:
                data.append([float(x) for x in parts])
        return np.array(data)
  \<close>
  The model starts from \<open>lines\<close>, the lines of the file as \<open>readlines\<close> returns them.
  \<open>data_lines_step\<close> is the body of the first loop, \<open>float_all\<close> the list comprehension
  (it stops at the first text that \<open>float\<close> refuses), \<open>parse_rows\<close> the second loop, which
  threads the list \<open>data\<close>; \<open>data_rows\<close> is \<open>data\<close> when the second loop has ended.

  \<open>np_array\<close> is \<open>np.array(data)\<close> on a list of rows of floats, as NumPy 1.24 and later
  build it: the empty list gives the empty array of one dimension (shape \<open>(0,)\<close>); rows
  of one length give an array of two dimensions, kept here with its number of columns;
  rows of different lengths raise \<open>ValueError\<close> (older versions built an array of
  objects). \<open>Array1\<close> is an array of one dimension, \<open>Array2 w rows\<close> one of two
  dimensions with \<open>w\<close> columns.
\<close>

definition data_lines_step :: "string \<Rightarrow> string list \<Rightarrow> string list" where
  "data_lines_step raw data_lines =
     (let line = strip raw
      in if line \<noteq> [] \<and> \<not> startswith line ''#'' then data_lines @ [line] else data_lines)"

fun float_all :: "(string \<Rightarrow> 'f option) \<Rightarrow> string list \<Rightarrow> py_error + 'f list" where
  "float_all float_of [] = Inr []"
| "float_all float_of (x # xs) =
     (case float_or_raise float_of x of
        Inl err \<Rightarrow> Inl err
      | Inr v \<Rightarrow> (case float_all float_of xs of Inl err \<Rightarrow> Inl err | Inr vs \<Rightarrow> Inr (v # vs)))"

fun parse_rows :: "(string \<Rightarrow> 'f option) \<Rightarrow> string list \<Rightarrow> 'f list list \<Rightarrow> py_error + 'f list list" where
  "parse_rows float_of [] data = Inr data"
| "parse_rows float_of (line # rest) data =
     (let parts = split_ws line
      in if length parts \<ge> 2
         then (case float_all float_of parts of
                 Inl err \<Rightarrow> Inl err
               | Inr row \<Rightarrow> parse_rows float_of rest (data @ [row]))
         else parse_rows float_of rest data)"

definition data_rows :: "(string \<Rightarrow> 'f option) \<Rightarrow> string list \<Rightarrow> py_error + 'f list list" where
  "data_rows float_of lines = parse_rows float_of (fold data_lines_step lines []) []"

datatype 'f ndarray = Array1 "'f list" | Array2 nat "'f list list"

definition rectangular :: "'a list list \<Rightarrow> bool" where
  "rectangular rows = list_all (\<lambda>r. length r = length (hd rows)) rows"

definition np_array :: "'f list list \<Rightarrow> py_error + 'f ndarray" where
  "np_array rows =
     (if rows = [] then Inr (Array1 [])
      else if rectangular rows then Inr (Array2 (length (hd rows)) rows)
      else Inl ValueError)"

definition read_bands_data :: "(string \<Rightarrow> 'f option) \<Rightarrow> string list \<Rightarrow> py_error + 'f ndarray" where
  "read_bands_data float_of lines =
     (case data_rows float_of lines of Inl err \<Rightarrow> Inl err | Inr data \<Rightarrow> np_array data)"

text \<open>
  The words of the claim about this reader. A line is retained when, stripped, it is not
  blank, does not start with \<open>#\<close> and has at least two fields separated by white space;
  its fields are numeric when \<open>float\<close> accepts each of them; its row is the list of their
  values. \<open>data_line\<close> and \<open>wide\<close> are the tests of the first and of the second loop.
\<close>

definition retained :: "string \<Rightarrow> bool" where
  "retained raw = (strip raw \<noteq> [] \<and> \<not> startswith (strip raw) ''#''
     \<and> 2 \<le> length (split_ws (strip raw)))"

definition is_float :: "(string \<Rightarrow> 'f option) \<Rightarrow> string \<Rightarrow> bool" where
  "is_float float_of x = (float_of x \<noteq> None)"

definition fields_numeric :: "(string \<Rightarrow> 'f option) \<Rightarrow> string \<Rightarrow> bool" where
  "fields_numeric float_of raw = list_all (is_float float_of) (split_ws (strip raw))"

definition row_of :: "(string \<Rightarrow> 'f option) \<Rightarrow> string \<Rightarrow> 'f list" where
  "row_of float_of raw = map (\<lambda>x. the (float_of x)) (split_ws (strip raw))"

definition data_line :: "string \<Rightarrow> bool" where
  "data_line raw = (strip raw \<noteq> [] \<and> \<not> startswith (strip raw) ''#'')"

definition wide :: "string \<Rightarrow> bool" where
  "wide line = (2 \<le> length (split_ws line))"

subsection \<open>From the array to the segmenter\<close>

text \<open>
  \<^verbatim>\<open>
    k_coord = data[:, 0]
    energy = data[:, 1]
  \<close>
  (lines 28 and 29 of \<open>plot_bands_improved\<close>, lines 51 and 55 of
  \<open>plot_spin_resolved_bands\<close>). \<open>data[:, j]\<close> takes two indices, so it raises
  \<open>IndexError\<close> on an array of one dimension, and on a column that is not there.
\<close>

fun column :: "'f ndarray \<Rightarrow> nat \<Rightarrow> py_error + 'f list" where
  "column (Array1 xs) j = Inl IndexError"
| "column (Array2 w rows) j = (if j < w then Inr (map (\<lambda>r. r ! j) rows) else Inl IndexError)"

definition band_columns :: "'f ndarray \<Rightarrow> py_error + 'f list \<times> 'f list" where
  "band_columns data =
     (case column data 0 of
        Inl err \<Rightarrow> Inl err
      | Inr k_coord \<Rightarrow>
          (case column data 1 of Inl err \<Rightarrow> Inl err | Inr energy \<Rightarrow> Inr (k_coord, energy)))"

text \<open>
  \<open>plot_bands_improved\<close> from \<open>data\<close>, the array that \<open>np.loadtxt\<close> returned, to the lines
  drawn. \<open>np.loadtxt\<close> is numpy's and is not modelled; it returns an array of one dimension
  for a file with no data row and for a file with one data row.
\<close>

definition plot_bands_improved_from :: "(float64 \<Rightarrow> float64) \<Rightarrow> float64 ndarray
    \<Rightarrow> py_error + (float64 list \<times> float64 list) list" where
  "plot_bands_improved_from sub_fermi data =
     (case band_columns data of
        Inl err \<Rightarrow> Inl err
      | Inr (k_coord, energy) \<Rightarrow> Inr (plot_bands_improved sub_fermi k_coord energy))"

text \<open>
  \<open>plot_spin_resolved_bands\<close> from the lines of the band file that \<open>read_bands_data\<close>
  read: the segments its loop takes, and the lines its left panel draws. An exception
  of \<open>read_bands_data\<close> on the first file makes the script read the second file; \<open>lines\<close>
  are the lines of the file whose reading returned.
\<close>

definition spin_resolved_segments :: "(string \<Rightarrow> float64 option) \<Rightarrow> (float64 \<Rightarrow> float64)
    \<Rightarrow> string list \<Rightarrow> py_error + (float64 list \<times> float64 list) list" where
  "spin_resolved_segments float_of sub_fermi lines =
     (case read_bands_data float_of lines of
        Inl err \<Rightarrow> Inl err
      | Inr data \<Rightarrow>
          (case band_columns data of
             Inl err \<Rightarrow> Inl err
           | Inr (k_coord, energy) \<Rightarrow> Inr (band_segments k_coord (map sub_fermi energy))))"

definition plot_spin_resolved_bands_from :: "(string \<Rightarrow> float64 option) \<Rightarrow> (float64 \<Rightarrow> float64)
    \<Rightarrow> string list \<Rightarrow> py_error + (float64 list \<times> float64 list) list" where
  "plot_spin_resolved_bands_from float_of sub_fermi lines =
     (case read_bands_data float_of lines of
        Inl err \<Rightarrow> Inl err
      | Inr data \<Rightarrow>
          (case band_columns data of
             Inl err \<Rightarrow> Inl err
           | Inr (k_coord, energy) \<Rightarrow> Inr (plot_spin_resolved_bands sub_fermi k_coord energy)))"

section \<open>Properties of the segmenter\<close>

subsection \<open>The boundary list\<close>

lemma upt_1_6: "[1..<6] = [1, 2, 3, 4, 5]"
  by (simp add: upt_rec)

lemma upt_1_3: "[1..<3] = [1, 2]"
  by (simp add: upt_rec)

lemmas segmenter_eval = band_segments_def band_breaks_def breaks_step_def segment_at_def
  slice_def Let_def

lemma flt_lt_irrefl: "\<not> flt_lt c c"
  by (cases c) simp_all

lemma flt_lt_asym: "flt_lt a b \<Longrightarrow> \<not> flt_lt b a"
  by (cases a; cases b) simp_all

lemma flt_eq_not_lt: "flt_eq a b \<Longrightarrow> \<not> flt_lt a b"
  by (simp add: flt_eq_def flt_lt_irrefl)

lemma flt_le_total: "a \<noteq> NaN \<Longrightarrow> b \<noteq> NaN \<Longrightarrow> \<not> flt_lt b a \<Longrightarrow> flt_le a b"
  by (cases a; cases b) (auto simp add: flt_le_def flt_eq_def)

lemma fold_breaks_step:
  "fold (breaks_step k) js bb = bb @ filter (descent k) js"
  by (induction js arbitrary: bb) (simp_all add: breaks_step_def descent_def)

lemma band_breaks_filter:
  "band_breaks k = 0 # filter (descent k) [1..<length k] @ [length k]"
  by (simp add: band_breaks_def fold_breaks_step)

lemma band_breaks_strict:
  assumes "k \<noteq> []"
  shows "sorted_wrt (<) (band_breaks k)"
proof -
  have "0 < length k" using assms by simp
  then show ?thesis
    by (auto simp add: band_breaks_filter sorted_wrt_append sorted_wrt_filter)
qed

lemma band_breaks_sorted: "sorted (band_breaks k)"
proof (cases k)
  case Nil
  then show ?thesis by (simp add: band_breaks_def)
next
  case (Cons a as)
  then have "sorted_wrt (<) (band_breaks k)" by (simp add: band_breaks_strict)
  then show ?thesis by (rule strict_sorted_imp_sorted)
qed

lemma band_breaks_hd_last: "hd (band_breaks k) = 0 \<and> last (band_breaks k) = length k"
  by (simp add: band_breaks_filter)

lemma band_breaks_mem:
  "1 \<le> i \<Longrightarrow> i < length k \<Longrightarrow> i \<in> set (band_breaks k) \<longleftrightarrow> descent k i"
  by (auto simp add: band_breaks_filter)

lemma band_breaks_le: "b \<in> set (band_breaks k) \<Longrightarrow> b \<le> length k"
  by (auto simp add: band_breaks_filter)

lemma length_band_breaks: "length (band_breaks k) = Suc (Suc (length (filter (descent k) [1..<length k])))"
  by (simp add: band_breaks_filter)

lemma filter_descent_set: "set (filter (descent k) [1..<n]) = {i. 1 \<le> i \<and> i < n \<and> descent k i}"
  by auto

subsection \<open>Slices between consecutive boundaries\<close>

lemma map_nth_pairs_slices:
  "map (\<lambda>i. f (bb ! i) (bb ! (i + 1))) [0..<length bb - 1] = map (\<lambda>(a, b). f a b) (zip bb (tl bb))"
proof (induction bb)
  case Nil
  then show ?case by simp
next
  case (Cons a bb)
  show ?case
  proof (cases bb)
    case Nil
    then show ?thesis by simp
  next
    case (Cons b bs)
    have "[0..<length (a # bb) - 1] = 0 # map Suc [0..<length bb - 1]"
      using Cons by (simp add: upt_conv_Cons map_Suc_upt del: upt_Suc)
    then show ?thesis using Cons.IH Cons by (simp add: comp_def)
  qed
qed

lemma slice_append:
  "a \<le> b \<Longrightarrow> b \<le> c \<Longrightarrow> slice xs a b @ slice xs b c = slice xs a c"
proof -
  assume ab: "a \<le> b" and bc: "b \<le> c"
  have "take (c - a) (drop a xs) = take ((b - a) + (c - b)) (drop a xs)"
    using ab bc by simp
  also have "\<dots> = take (b - a) (drop a xs) @ take (c - b) (drop (b - a) (drop a xs))"
    by (rule take_add)
  also have "drop (b - a) (drop a xs) = drop b xs"
    using ab by simp
  finally show ?thesis by (simp add: slice_def)
qed

lemma slice_nth:
  "a + j < b \<Longrightarrow> b \<le> length xs \<Longrightarrow> slice xs a b ! j = xs ! (a + j)"
  by (simp add: slice_def)

lemma length_slice: "b \<le> length xs \<Longrightarrow> length (slice xs a b) = b - a"
  by (simp add: slice_def)

lemma slice_take: "b \<le> n \<Longrightarrow> slice (take n xs) a b = slice xs a b"
  by (simp add: slice_def drop_take min_def)

lemma concat_slices:
  "sorted bb \<Longrightarrow> bb \<noteq> [] \<Longrightarrow> concat (map (\<lambda>(a, b). slice xs a b) (zip bb (tl bb))) = slice xs (hd bb) (last bb)"
proof (induction bb)
  case Nil
  then show ?case by simp
next
  case (Cons a bb)
  show ?case
  proof (cases bb)
    case Nil
    then show ?thesis by (simp add: slice_def)
  next
    case (Cons b bs)
    have "a \<le> b" "b \<le> last bb" using Cons.prems Cons by auto
    then show ?thesis using Cons.IH Cons.prems Cons
      by (simp add: slice_append)
  qed
qed

lemma band_segments_zip:
  "band_segments k e = map (\<lambda>(a, b). (slice k a b, slice e a b)) (zip (band_breaks k) (tl (band_breaks k)))"
proof -
  have "segment_at k e (band_breaks k) =
      (\<lambda>i. (slice k (band_breaks k ! i) (band_breaks k ! (i + 1)),
            slice e (band_breaks k ! i) (band_breaks k ! (i + 1))))"
    by (rule ext) (simp add: segment_at_def Let_def)
  then show ?thesis
    using map_nth_pairs_slices [of "\<lambda>a b. (slice k a b, slice e a b)" "band_breaks k"]
    by (simp add: band_segments_def Let_def)
qed

lemma band_segments_nth:
  assumes "i < length (band_breaks k) - 1"
  shows "band_segments k e ! i =
    (slice k (band_breaks k ! i) (band_breaks k ! Suc i), slice e (band_breaks k ! i) (band_breaks k ! Suc i))"
  using assms by (simp add: band_segments_def segment_at_def Let_def)

lemma length_band_segments: "length (band_segments k e) = length (band_breaks k) - 1"
  by (simp add: band_segments_def Let_def)

lemma in_band_segmentsE:
  assumes "s \<in> set (band_segments k e)"
  obtains i where "Suc i < length (band_breaks k)"
    and "s = (slice k (band_breaks k ! i) (band_breaks k ! Suc i), slice e (band_breaks k ! i) (band_breaks k ! Suc i))"
proof -
  from assms obtain i where i: "i < length (band_segments k e)" and s: "s = band_segments k e ! i"
    by (auto simp add: in_set_conv_nth)
  from i have "i < length (band_breaks k) - 1" by (simp add: length_band_segments)
  then show thesis using that [of i] s band_segments_nth [of i k e] by simp
qed

lemma concat_fst_segments: "concat (map fst (band_segments k e)) = k"
proof -
  have "map fst (band_segments k e) = map (\<lambda>(a, b). slice k a b) (zip (band_breaks k) (tl (band_breaks k)))"
    by (simp add: band_segments_zip comp_def case_prod_unfold)
  moreover have "band_breaks k \<noteq> []" by (simp add: band_breaks_def)
  ultimately have "concat (map fst (band_segments k e)) = slice k 0 (length k)"
    using concat_slices [OF band_breaks_sorted, of k k] band_breaks_hd_last [of k] by simp
  then show ?thesis by (simp add: slice_def)
qed

lemma concat_snd_segments: "concat (map snd (band_segments k e)) = take (length k) e"
proof -
  have "map snd (band_segments k e) = map (\<lambda>(a, b). slice e a b) (zip (band_breaks k) (tl (band_breaks k)))"
    by (simp add: band_segments_zip comp_def case_prod_unfold)
  moreover have "band_breaks k \<noteq> []" by (simp add: band_breaks_def)
  ultimately have "concat (map snd (band_segments k e)) = slice e 0 (length k)"
    using concat_slices [OF band_breaks_sorted, of k e] band_breaks_hd_last [of k] by simp
  then show ?thesis by (simp add: slice_def)
qed

lemma band_segments_take: "band_segments k (take (length k) e) = band_segments k e"
proof -
  have "slice (take (length k) e) a b = slice e a b"
    if "(a, b) \<in> set (zip (band_breaks k) (tl (band_breaks k)))" for a b
  proof -
    have "b \<in> set (tl (band_breaks k))" using that by (rule set_zip_rightD)
    then have "b \<in> set (band_breaks k)" by (rule list.set_sel(2) [rotated]) (simp add: band_breaks_def)
    then show ?thesis by (simp add: slice_take band_breaks_le)
  qed
  then show ?thesis by (auto simp add: band_segments_zip)
qed

lemma strict_between_not_mem:
  fixes bb :: "nat list"
  assumes st: "sorted_wrt (<) bb" and i: "Suc i < length bb"
    and lo: "bb ! i < m" and hi: "m < bb ! Suc i"
  shows "m \<notin> set bb"
proof
  assume "m \<in> set bb"
  then obtain p where p: "p < length bb" and m: "m = bb ! p"
    by (auto simp add: in_set_conv_nth)
  have so: "sorted bb" using st by (rule strict_sorted_imp_sorted)
  show False
  proof (cases "p \<le> i")
    case True
    then have "bb ! p \<le> bb ! i" using so i by (simp add: sorted_nth_mono)
    then show False using lo m by simp
  next
    case False
    then have "Suc i \<le> p" by simp
    then have "bb ! Suc i \<le> bb ! p" using so p by (simp add: sorted_nth_mono)
    then show False using hi m by simp
  qed
qed

lemma segment_no_descent:
  assumes s: "s \<in> set (band_segments k e)" and j: "Suc j < length (fst s)"
  shows "\<exists>m. 1 \<le> m \<and> m < length k \<and> fst s ! j = k ! (m - 1) \<and> fst s ! Suc j = k ! m \<and> \<not> descent k m"
proof -
  let ?bb = "band_breaks k"
  from s obtain i where i: "Suc i < length ?bb"
    and fs: "fst s = slice k (?bb ! i) (?bb ! Suc i)"
    by (auto elim: in_band_segmentsE)
  have hi_le: "?bb ! Suc i \<le> length k" using i by (simp add: band_breaks_le)
  have len: "length (fst s) = ?bb ! Suc i - ?bb ! i" using fs hi_le by (simp add: length_slice)
  let ?m = "?bb ! i + Suc j"
  have m_hi: "?m < ?bb ! Suc i" using j len by simp
  have m_lo: "?bb ! i < ?m" by simp
  have kne: "k \<noteq> []" using m_hi hi_le by auto
  have "?m \<notin> set ?bb"
    using strict_between_not_mem [OF band_breaks_strict [OF kne] i m_lo m_hi] .
  moreover have "1 \<le> ?m" "?m < length k" using m_hi hi_le by simp_all
  ultimately have nd: "\<not> descent k ?m" using band_breaks_mem [of ?m k] by simp
  have "fst s ! j = k ! (?bb ! i + j)" using fs m_hi hi_le by (simp add: slice_nth)
  moreover have "fst s ! Suc j = k ! ?m" using fs m_hi hi_le by (simp add: slice_nth)
  ultimately show ?thesis using nd \<open>1 \<le> ?m\<close> \<open>?m < length k\<close> by (intro exI [of _ ?m]) simp
qed

lemma fold_plot_step:
  "fold (plot_step sh k e bb) js lines =
     lines @ map (\<lambda>s. (fst s, map sh (snd s))) (filter (\<lambda>s. 1 < length (fst s)) (map (segment_at k e bb) js))"
  by (induction js arbitrary: lines) (simp_all add: plot_step_def segment_at_def Let_def)

lemma length_concat_take_slices:
  fixes bb :: "nat list"
  assumes so: "sorted bb" and hd0: "hd bb = 0" and le: "\<forall>b\<in>set bb. b \<le> length xs"
  shows "Suc m < length bb \<Longrightarrow>
    length (concat (take m (map (\<lambda>(a, b). slice xs a b) (zip bb (tl bb))))) = bb ! m"
proof (induction m)
  case 0
  then have "bb \<noteq> []" by auto
  then show ?case using hd0 by (simp add: hd_conv_nth)
next
  case (Suc m)
  let ?ss = "map (\<lambda>(a, b). slice xs a b) (zip bb (tl bb))"
  have lt: "m < length ?ss" using Suc.prems by simp
  have nth: "?ss ! m = slice xs (bb ! m) (bb ! Suc m)"
    using Suc.prems by (simp add: nth_tl)
  have mono: "bb ! m \<le> bb ! Suc m"
    using so Suc.prems by (simp add: sorted_nth_mono)
  have up: "bb ! Suc m \<le> length xs" using le Suc.prems by simp
  have "concat (take (Suc m) ?ss) = concat (take m ?ss) @ ?ss ! m"
    using lt by (simp add: take_Suc_conv_app_nth)
  then have "length (concat (take (Suc m) ?ss)) = bb ! m + length (slice xs (bb ! m) (bb ! Suc m))"
    using Suc.IH Suc.prems nth by simp
  then show ?case using mono up by (simp add: length_slice)
qed

lemma segment_starts_butlast:
  "segment_starts (map fst (band_segments k e)) = butlast (band_breaks k)"
proof -
  let ?bb = "band_breaks k"
  let ?ss = "map (\<lambda>(a, b). slice k a b) (zip ?bb (tl ?bb))"
  have ss: "map fst (band_segments k e) = ?ss"
    by (simp add: band_segments_zip comp_def case_prod_unfold)
  have len: "length ?ss = length ?bb - 1" by simp
  have "length (concat (take m ?ss)) = ?bb ! m" if "m < length ?bb - 1" for m
    using length_concat_take_slices [of ?bb k m] that band_breaks_sorted [of k]
      band_breaks_hd_last [of k] band_breaks_le [of _ k] by auto
  then have "segment_starts ?ss = map (\<lambda>m. ?bb ! m) [0..<length ?bb - 1]"
    unfolding segment_starts_def len by simp
  also have "\<dots> = take (length ?bb - 1) ?bb"
    by (rule nth_equalityI) simp_all
  also have "\<dots> = butlast ?bb" by (simp add: butlast_conv_take)
  finally show ?thesis using ss by simp
qed

lemma segment_starts_mem:
  assumes "i < length k"
  shows "i \<in> set (segment_starts (map fst (band_segments k e))) \<longleftrightarrow> i \<in> set (band_breaks k)"
proof -
  have "band_breaks k = butlast (band_breaks k) @ [length k]"
    by (simp add: band_breaks_filter butlast_append)
  then have "set (band_breaks k) = set (butlast (band_breaks k)) \<union> {length k}"
    by (metis Un_insert_right list.simps(15) set_append sup_bot.right_neutral list.set(1))
  then show ?thesis using assms by (auto simp add: segment_starts_butlast)
qed

subsection \<open>Segments of one sample and the lines drawn\<close>

lemma slice_single: "i < length xs \<Longrightarrow> slice xs i (Suc i) = [xs ! i]"
  by (simp add: slice_def take_Suc_conv_app_nth)

lemma consecutive_breaks:
  fixes bb :: "nat list"
  assumes st: "sorted_wrt (<) bb" and a: "i \<in> set bb" and b: "Suc i \<in> set bb"
  shows "\<exists>m. Suc m < length bb \<and> bb ! m = i \<and> bb ! Suc m = Suc i"
proof -
  from a obtain m where m: "m < length bb" "bb ! m = i" by (auto simp add: in_set_conv_nth)
  from b obtain p where p: "p < length bb" "bb ! p = Suc i" by (auto simp add: in_set_conv_nth)
  have so: "sorted bb" using st by (rule strict_sorted_imp_sorted)
  have "m < p"
  proof (rule ccontr)
    assume "\<not> m < p"
    then have "p \<le> m" by simp
    then have "bb ! p \<le> bb ! m" using so m(1) by (simp add: sorted_nth_mono)
    then show False using m(2) p(2) by simp
  qed
  then have sm: "Suc m < length bb" using p(1) by simp
  have lo: "bb ! m < bb ! Suc m" using st sm by (simp add: sorted_wrt_nth_less)
  have hi: "bb ! Suc m \<le> bb ! p" using so \<open>m < p\<close> p(1) by (simp add: sorted_nth_mono)
  have "bb ! Suc m = Suc i" using lo hi m(2) p(2) by simp
  then show ?thesis using sm m(2) by blast
qed

lemma single_sample_segment:
  assumes i: "i < length k" and len: "length e = length k"
    and lo: "i = 0 \<or> flt_lt (k ! i) (k ! (i - 1))"
    and hi: "Suc i = length k \<or> flt_lt (k ! Suc i) (k ! i)"
  shows "([k ! i], [e ! i]) \<in> set (band_segments k e)"
proof -
  let ?bb = "band_breaks k"
  have kne: "k \<noteq> []" using i by auto
  have a: "i \<in> set ?bb"
  proof (cases "i = 0")
    case True
    then show ?thesis by (simp add: band_breaks_filter)
  next
    case False
    then have "descent k i" using lo by (simp add: descent_def)
    then show ?thesis using band_breaks_mem [of i k] False i by simp
  qed
  have b: "Suc i \<in> set ?bb"
  proof (cases "Suc i = length k")
    case True
    then show ?thesis by (simp add: band_breaks_filter)
  next
    case False
    then have "descent k (Suc i)" using hi by (simp add: descent_def)
    moreover have "Suc i < length k" using False i by simp
    ultimately show ?thesis using band_breaks_mem [of "Suc i" k] by simp
  qed
  from consecutive_breaks [OF band_breaks_strict [OF kne] a b]
  obtain m where m: "Suc m < length ?bb" "?bb ! m = i" "?bb ! Suc m = Suc i" by blast
  have "m < length ?bb - 1" using m(1) by simp
  then have "band_segments k e ! m = (slice k i (Suc i), slice e i (Suc i))"
    using band_segments_nth [of m k e] m by simp
  then have "band_segments k e ! m = ([k ! i], [e ! i])"
    using i len by (simp add: slice_single)
  moreover have "m < length (band_segments k e)"
    using m(1) by (simp add: length_band_segments)
  ultimately show ?thesis by (metis nth_mem)
qed

lemma plot_bands_improved_filter:
  "plot_bands_improved sub_fermi k e
     = map (\<lambda>s. (fst s, map sub_fermi (snd s))) (filter (\<lambda>s. 1 < length (fst s)) (band_segments k e))"
  by (simp add: plot_bands_improved_def fold_plot_step band_segments_def Let_def)

lemma plot_spin_resolved_bands_filter:
  "plot_spin_resolved_bands sub_fermi k e
     = filter (\<lambda>s. 1 < length (fst s)) (band_segments k (map sub_fermi e))"
  by (simp add: plot_spin_resolved_bands_def fold_plot_step band_segments_def Let_def)

lemma plot_bands_improved_long:
  "s \<in> set (plot_bands_improved sub_fermi k e) \<Longrightarrow> 1 < length (fst s)"
  by (auto simp add: plot_bands_improved_filter)

lemma plot_spin_resolved_bands_long:
  "s \<in> set (plot_spin_resolved_bands sub_fermi k e) \<Longrightarrow> 1 < length (fst s)"
  by (auto simp add: plot_spin_resolved_bands_filter)

subsection \<open>The claims about the segmenter\<close>

text \<open>
  C1. The segments are a lossless, order-preserving partition: for k-coordinates and
  energies of the same length (they are two columns of one array), concatenating the
  k-slices of the emitted segments in order gives back the k-coordinates, and
  concatenating the energy slices gives back the energies.
\<close>

theorem segments_lossless:
  "length energy = length k_coord \<Longrightarrow>
   concat (map fst (band_segments k_coord energy)) = k_coord \<and>
   concat (map snd (band_segments k_coord energy)) = energy"
  by (simp add: concat_fst_segments concat_snd_segments)

theorem segments_lossless_witness:
  "length [Finite 5, Finite 6, Finite 7] = length [Finite 0, Finite 1, Finite 0] \<and>
   concat (map fst (band_segments [Finite 0, Finite 1, Finite 0] [Finite 5, Finite 6, Finite 7]))
     = [Finite 0, Finite 1, Finite 0] \<and>
   concat (map snd (band_segments [Finite 0, Finite 1, Finite 0] [Finite 5, Finite 6, Finite 7]))
     = [Finite 5, Finite 6, Finite 7]"
  using segments_lossless [where k_coord = "[Finite 0, Finite 1, Finite 0]"
      and energy = "[Finite 5, Finite 6, Finite 7]"]
  by simp

text \<open>
  C2. For every index \<open>i\<close> with \<open>1 \<le> i < N\<close>, \<open>i\<close> is in the boundary list, and a segment
  begins at \<open>i\<close>, exactly when \<open>k[i] < k[i-1]\<close> in the strict floating-point order; if the
  two neighbours are equal or increase, \<open>i\<close> is no boundary. A constant k-sequence of any
  length \<open>n\<close> has the boundary list \<open>[0, n]\<close> and is emitted as one segment.
\<close>

theorem split_iff_strict_decrease:
  "(1 \<le> i \<and> i < length k_coord \<longrightarrow>
      (i \<in> set (band_breaks k_coord) \<longleftrightarrow> flt_lt (k_coord ! i) (k_coord ! (i - 1))) \<and>
      (i \<in> set (segment_starts (map fst (band_segments k_coord energy)))
         \<longleftrightarrow> flt_lt (k_coord ! i) (k_coord ! (i - 1))) \<and>
      (flt_eq (k_coord ! i) (k_coord ! (i - 1)) \<or> flt_lt (k_coord ! (i - 1)) (k_coord ! i)
         \<longrightarrow> i \<notin> set (band_breaks k_coord))) \<and>
   band_breaks (replicate n c) = [0, n] \<and>
   band_segments (replicate n c) energy = [(replicate n c, take n energy)]"
proof -
  have a: "i \<in> set (band_breaks k_coord) \<longleftrightarrow> flt_lt (k_coord ! i) (k_coord ! (i - 1))"
    if "1 \<le> i" "i < length k_coord"
    using band_breaks_mem [OF that] by (simp add: descent_def)
  have a': "i \<in> set (segment_starts (map fst (band_segments k_coord energy)))
      \<longleftrightarrow> flt_lt (k_coord ! i) (k_coord ! (i - 1))"
    if "1 \<le> i" "i < length k_coord"
    using a [OF that] segment_starts_mem [OF that(2)] by simp
  have b: "i \<notin> set (band_breaks k_coord)"
    if "1 \<le> i" "i < length k_coord"
      "flt_eq (k_coord ! i) (k_coord ! (i - 1)) \<or> flt_lt (k_coord ! (i - 1)) (k_coord ! i)"
    using that a flt_eq_not_lt flt_lt_asym by blast
  have "filter (descent (replicate n c)) [1..<n] = []"
    by (auto simp add: filter_empty_conv descent_def flt_lt_irrefl)
  then have c: "band_breaks (replicate n c) = [0, n]"
    by (simp add: band_breaks_filter)
  have d: "band_segments (replicate n c) energy = [(replicate n c, take n energy)]"
    by (simp add: band_segments_zip c slice_def)
  show ?thesis using a a' b c d by blast
qed

theorem split_iff_strict_decrease_witness:
  "(1::nat) \<le> 2 \<and> 2 < length [Finite 0, Finite 1, Finite 0] \<and>
   2 \<in> set (band_breaks [Finite 0, Finite 1, Finite 0]) \<and>
   2 \<in> set (segment_starts
       (map fst (band_segments [Finite 0, Finite 1, Finite 0] [Finite 5, Finite 6, Finite 7]))) \<and>
   flt_lt ([Finite 0, Finite 1, Finite 0] ! 2) ([Finite 0, Finite 1, Finite 0] ! (2 - 1)) \<and>
   flt_lt ([Finite 0, Finite 1, Finite 0] ! (1 - 1)) ([Finite 0, Finite 1, Finite 0] ! 1) \<and>
   1 \<notin> set (band_breaks [Finite 0, Finite 1, Finite 0]) \<and>
   band_breaks (replicate 3 NaN) = [0, 3]"
  using split_iff_strict_decrease [where i = 2 and k_coord = "[Finite 0, Finite 1, Finite 0]"
      and energy = "[Finite 5, Finite 6, Finite 7]" and n = 3 and c = NaN]
    split_iff_strict_decrease [where i = 1 and k_coord = "[Finite 0, Finite 1, Finite 0]"]
  by simp

text \<open>
  C3, as the code has it. Inside an emitted segment no k-coordinate is strictly below its
  predecessor. When no k-coordinate of the input is a NaN this says that the segment is
  non-decreasing: \<open>k[j] <= k[j+1]\<close> for consecutive positions of the segment.
\<close>

theorem segments_non_decreasing:
  assumes "s \<in> set (band_segments k_coord energy)" and "Suc j < length (fst s)"
  shows "\<not> flt_lt (fst s ! Suc j) (fst s ! j) \<and>
    (NaN \<notin> set k_coord \<longrightarrow> flt_le (fst s ! j) (fst s ! Suc j))"
proof -
  from segment_no_descent [OF assms] obtain m where m: "1 \<le> m" "m < length k_coord"
    and a: "fst s ! j = k_coord ! (m - 1)" and b: "fst s ! Suc j = k_coord ! m"
    and nd: "\<not> descent k_coord m" by blast
  have nlt: "\<not> flt_lt (fst s ! Suc j) (fst s ! j)" using nd a b by (simp add: descent_def)
  have "flt_le (fst s ! j) (fst s ! Suc j)" if "NaN \<notin> set k_coord"
  proof -
    have "k_coord ! (m - 1) \<noteq> NaN" "k_coord ! m \<noteq> NaN"
      using that m by (metis less_imp_diff_less nth_mem, metis nth_mem)
    then show ?thesis using nlt a b by (simp add: flt_le_total)
  qed
  then show ?thesis using nlt by blast
qed

theorem segments_non_decreasing_witness:
  "([Finite 0, Finite 1], [Finite 5, Finite 6])
     \<in> set (band_segments [Finite 0, Finite 1, Finite 0] [Finite 5, Finite 6, Finite 7]) \<and>
   Suc 0 < length (fst ([Finite 0, Finite 1], [Finite 5, Finite 6])) \<and>
   NaN \<notin> set [Finite 0, Finite 1, Finite 0] \<and>
   \<not> flt_lt (fst ([Finite 0, Finite 1], [Finite 5, Finite 6]) ! Suc 0)
          (fst ([Finite 0, Finite 1], [Finite 5, Finite 6]) ! 0) \<and>
   flt_le (fst ([Finite 0, Finite 1], [Finite 5, Finite 6]) ! 0)
          (fst ([Finite 0, Finite 1], [Finite 5, Finite 6]) ! Suc 0)"
proof -
  have mem: "([Finite 0, Finite 1], [Finite 5, Finite 6])
     \<in> set (band_segments [Finite 0, Finite 1, Finite 0] [Finite 5, Finite 6, Finite 7])"
    by (simp add: segmenter_eval upt_1_3 upt_rec)
  have len: "Suc 0 < length (fst ([Finite 0, Finite 1], [Finite 5, Finite 6]))"
    by simp
  have nan: "NaN \<notin> set [Finite 0, Finite 1, Finite 0]"
    by simp
  show ?thesis
    using mem len nan segments_non_decreasing [OF mem len] by blast
qed

text \<open>
  C3 as stated fails on an input with a NaN k-coordinate: \<open>nan < 1.0\<close> is false, so
  \<open>[1.0, nan]\<close> is one segment, and \<open>1.0 <= nan\<close> is false as well.
\<close>

theorem segments_non_decreasing_counterexample:
  "band_segments [Finite 1, NaN] [Finite 0, Finite 0] = [([Finite 1, NaN], [Finite 0, Finite 0])] \<and>
   \<not> flt_le ([Finite 1, NaN] ! 0) ([Finite 1, NaN] ! 1)"
  by (simp add: segmenter_eval flt_le_def flt_eq_def)

text \<open>
  C5. Running the segmenter again on the concatenation of its own segments gives the same
  boundary list and the same segments.
\<close>

theorem resegment_idempotent:
  "band_breaks (concat (map fst (band_segments k_coord energy))) = band_breaks k_coord \<and>
   band_segments (concat (map fst (band_segments k_coord energy)))
       (concat (map snd (band_segments k_coord energy)))
     = band_segments k_coord energy"
  by (simp add: concat_fst_segments concat_snd_segments band_segments_take)

text \<open>
  C6. On the k-coordinates 0.0, 0.1, 0.2, 0.05, 0.15, 0.3 the boundary list is 0, 3, 6 and
  the segmenter emits exactly two segments, with k-coordinates 0.0, 0.1, 0.2 and
  0.05, 0.15, 0.3 (the energies are sliced at the same places). The decimal literals stand
  for the doubles nearest to them, which are ordered as the decimals are.
\<close>

theorem band_breaks_scenario:
  "band_breaks [Finite 0, Finite (1/10), Finite (2/10), Finite (5/100), Finite (15/100), Finite (3/10)]
     = [0, 3, 6]
   \<and> map fst (band_segments
        [Finite 0, Finite (1/10), Finite (2/10), Finite (5/100), Finite (15/100), Finite (3/10)]
        [e0, e1, e2, e3, e4, e5])
     = [[Finite 0, Finite (1/10), Finite (2/10)], [Finite (5/100), Finite (15/100), Finite (3/10)]]
   \<and> map snd (band_segments
        [Finite 0, Finite (1/10), Finite (2/10), Finite (5/100), Finite (15/100), Finite (3/10)]
        [e0, e1, e2, e3, e4, e5])
     = [[e0, e1, e2], [e3, e4, e5]]"
  by (simp add: segmenter_eval upt_1_6 upt_rec)

text \<open>
  C7. The segmenter partitions and does not filter: the k-slices of the emitted segments
  concatenate to the input, and every sample that stands alone between two boundaries
  (it begins the input or lies below its predecessor, and it ends the input or its
  successor lies below it) is emitted as a segment of one sample. The plotting loops draw
  exactly the emitted segments that hold more than one sample, in order
  (\<open>plot_bands_improved\<close> with every energy shifted by the Fermi energy,
  \<open>plot_spin_resolved_bands\<close> on the energies shifted beforehand), so such a segment of
  one sample is emitted and not drawn.
\<close>

theorem renderer_skips_short_segments:
  "plot_bands_improved sub_fermi k_coord energy
     = map (\<lambda>s. (fst s, map sub_fermi (snd s)))
         (filter (\<lambda>s. 1 < length (fst s)) (band_segments k_coord energy)) \<and>
   plot_spin_resolved_bands sub_fermi k_coord energy
     = filter (\<lambda>s. 1 < length (fst s)) (band_segments k_coord (map sub_fermi energy)) \<and>
   concat (map fst (band_segments k_coord energy)) = k_coord \<and>
   (i < length k_coord \<and> length energy = length k_coord
      \<and> (i = 0 \<or> flt_lt (k_coord ! i) (k_coord ! (i - 1)))
      \<and> (Suc i = length k_coord \<or> flt_lt (k_coord ! Suc i) (k_coord ! i)) \<longrightarrow>
    ([k_coord ! i], [energy ! i]) \<in> set (band_segments k_coord energy) \<and>
    ([k_coord ! i], [sub_fermi (energy ! i)]) \<notin> set (plot_bands_improved sub_fermi k_coord energy) \<and>
    ([k_coord ! i], [sub_fermi (energy ! i)])
      \<notin> set (plot_spin_resolved_bands sub_fermi k_coord energy))"
proof -
  have a: "([k_coord ! i], [sub_fermi (energy ! i)])
      \<notin> set (plot_bands_improved sub_fermi k_coord energy)"
    using plot_bands_improved_long [of "([k_coord ! i], [sub_fermi (energy ! i)])"] by auto
  have b: "([k_coord ! i], [sub_fermi (energy ! i)])
      \<notin> set (plot_spin_resolved_bands sub_fermi k_coord energy)"
    using plot_spin_resolved_bands_long [of "([k_coord ! i], [sub_fermi (energy ! i)])"] by auto
  show ?thesis
    using a b single_sample_segment [of i k_coord energy]
      plot_bands_improved_filter [of sub_fermi k_coord energy]
      plot_spin_resolved_bands_filter [of sub_fermi k_coord energy]
      concat_fst_segments [of k_coord energy]
    by blast
qed

theorem renderer_skips_short_segments_witness:
  "(0::nat) < length [Finite 1, Finite 0, Finite 2] \<and>
   length [Finite 5, Finite 6, Finite 7] = length [Finite 1, Finite 0, Finite 2] \<and>
   flt_lt ([Finite 1, Finite 0, Finite 2] ! Suc 0) ([Finite 1, Finite 0, Finite 2] ! 0) \<and>
   band_segments [Finite 1, Finite 0, Finite 2] [Finite 5, Finite 6, Finite 7]
     = [([Finite 1], [Finite 5]), ([Finite 0, Finite 2], [Finite 6, Finite 7])] \<and>
   ([[Finite 1, Finite 0, Finite 2] ! 0], [[Finite 5, Finite 6, Finite 7] ! 0])
     \<in> set (band_segments [Finite 1, Finite 0, Finite 2] [Finite 5, Finite 6, Finite 7]) \<and>
   plot_bands_improved (\<lambda>e. e) [Finite 1, Finite 0, Finite 2] [Finite 5, Finite 6, Finite 7]
     = [([Finite 0, Finite 2], [Finite 6, Finite 7])] \<and>
   ([[Finite 1, Finite 0, Finite 2] ! 0], [[Finite 5, Finite 6, Finite 7] ! 0])
     \<notin> set (plot_bands_improved (\<lambda>e. e) [Finite 1, Finite 0, Finite 2]
         [Finite 5, Finite 6, Finite 7])"
proof -
  have segs: "band_segments [Finite 1, Finite 0, Finite 2] [Finite 5, Finite 6, Finite 7]
      = [([Finite 1], [Finite 5]), ([Finite 0, Finite 2], [Finite 6, Finite 7])]"
    by (simp add: segmenter_eval upt_1_3 upt_rec)
  have lt: "flt_lt ([Finite 1, Finite 0, Finite 2] ! Suc 0) ([Finite 1, Finite 0, Finite 2] ! 0)"
    by simp
  show ?thesis
    using segs lt
      renderer_skips_short_segments [where i = 0 and sub_fermi = "\<lambda>e. e"
        and k_coord = "[Finite 1, Finite 0, Finite 2]"
        and energy = "[Finite 5, Finite 6, Finite 7]"]
    by simp
qed

text \<open>
  C9. For a non-empty input the boundary list starts with 0, ends with \<open>N\<close> and is strictly
  increasing; the number of segments is one more than the number of indices \<open>i\<close> with
  \<open>1 \<le> i < N\<close> and \<open>k[i] < k[i-1]\<close>; and every segment is non-empty.
\<close>

theorem boundaries_strictly_increasing:
  assumes "k_coord \<noteq> []"
  shows "hd (band_breaks k_coord) = 0 \<and> last (band_breaks k_coord) = length k_coord \<and>
    sorted_wrt (<) (band_breaks k_coord) \<and>
    length (band_segments k_coord energy)
      = 1 + card {i. 1 \<le> i \<and> i < length k_coord \<and> flt_lt (k_coord ! i) (k_coord ! (i - 1))} \<and>
    list_all (\<lambda>s. fst s \<noteq> []) (band_segments k_coord energy)"
proof -
  let ?bb = "band_breaks k_coord"
  have st: "sorted_wrt (<) ?bb" using assms by (rule band_breaks_strict)
  have "card (set (filter (descent k_coord) [1..<length k_coord]))
      = length (filter (descent k_coord) [1..<length k_coord])"
    by (rule distinct_card) simp
  then have cnt: "length (band_segments k_coord energy)
      = 1 + card {i. 1 \<le> i \<and> i < length k_coord \<and> flt_lt (k_coord ! i) (k_coord ! (i - 1))}"
    by (simp add: length_band_segments length_band_breaks filter_descent_set descent_def)
  have "fst s \<noteq> []" if "s \<in> set (band_segments k_coord energy)" for s
  proof -
    from that obtain i where i: "Suc i < length ?bb"
      and fs: "fst s = slice k_coord (?bb ! i) (?bb ! Suc i)"
      by (auto elim: in_band_segmentsE)
    have "?bb ! i < ?bb ! Suc i" using st i by (simp add: sorted_wrt_nth_less)
    moreover have "?bb ! Suc i \<le> length k_coord" using i by (simp add: band_breaks_le)
    ultimately have "0 < length (fst s)" using fs by (simp add: length_slice)
    then show ?thesis by auto
  qed
  then have ne: "list_all (\<lambda>s. fst s \<noteq> []) (band_segments k_coord energy)"
    by (simp add: list_all_iff)
  show ?thesis using st cnt ne band_breaks_hd_last [of k_coord] by simp
qed

theorem boundaries_strictly_increasing_witness:
  "[Finite 0, Finite 1, Finite 0] \<noteq> [] \<and>
   hd (band_breaks [Finite 0, Finite 1, Finite 0]) = 0 \<and>
   last (band_breaks [Finite 0, Finite 1, Finite 0]) = length [Finite 0, Finite 1, Finite 0] \<and>
   sorted_wrt (<) (band_breaks [Finite 0, Finite 1, Finite 0]) \<and>
   length (band_segments [Finite 0, Finite 1, Finite 0] [Finite 5, Finite 6, Finite 7])
      = 1 + card {i. 1 \<le> i \<and> i < length [Finite 0, Finite 1, Finite 0]
            \<and> flt_lt ([Finite 0, Finite 1, Finite 0] ! i) ([Finite 0, Finite 1, Finite 0] ! (i - 1))} \<and>
   length (band_segments [Finite 0, Finite 1, Finite 0] [Finite 5, Finite 6, Finite 7]) = 2 \<and>
   list_all (\<lambda>s. fst s \<noteq> [])
     (band_segments [Finite 0, Finite 1, Finite 0] [Finite 5, Finite 6, Finite 7])"
proof -
  have ne: "[Finite 0, Finite 1, Finite 0] \<noteq> []" by simp
  have two: "length (band_segments [Finite 0, Finite 1, Finite 0] [Finite 5, Finite 6, Finite 7]) = 2"
    by (simp add: segmenter_eval upt_1_3)
  show ?thesis
    using ne two boundaries_strictly_increasing [OF ne, where energy = "[Finite 5, Finite 6, Finite 7]"]
    by blast
qed

section \<open>Properties of the readers\<close>

subsection \<open>Splitting at a separator\<close>

lemma split_from_absent:
  "\<not> contains s sep \<Longrightarrow> split_from sep cur s = [rev cur @ s]"
  by (induction s arbitrary: cur) simp_all

lemma startswith_append_butlast:
  assumes "sep \<noteq> []" and "startswith (x # xs @ sep @ ys) sep"
  shows "startswith (x # xs @ butlast sep) sep"
proof -
  have "x # xs @ sep @ ys = (x # xs @ butlast sep) @ (last sep # ys)"
    using assms(1) by simp
  moreover have "length sep \<le> length (x # xs @ butlast sep)"
    by simp
  ultimately have "take (length sep) (x # xs @ sep @ ys) = take (length sep) (x # xs @ butlast sep)"
    by (metis append_Nil2 diff_is_0_eq' take_0 take_append)
  then show ?thesis using assms(2) by (simp add: startswith_def)
qed

lemma split_from_first:
  assumes "sep \<noteq> []"
  shows "\<not> contains (xs @ butlast sep) sep \<Longrightarrow>
    split_from sep cur (xs @ sep @ ys) = (rev cur @ xs) # split_from sep [] ys"
proof (induction xs arbitrary: cur)
  case Nil
  obtain c cs where sep: "sep = c # cs" using assms by (cases sep) auto
  have "startswith (sep @ ys) sep" by (simp add: startswith_def)
  then show ?case using sep by simp
next
  case (Cons x xs)
  from Cons.prems have a: "\<not> startswith (x # xs @ butlast sep) sep"
    and b: "\<not> contains (xs @ butlast sep) sep" by simp_all
  from a have "\<not> startswith (x # xs @ sep @ ys) sep"
    using startswith_append_butlast [OF assms] by blast
  then show ?case using Cons.IH [OF b] by simp
qed

lemma split_from_keeps_prefix:
  "\<forall>i<length xs. \<not> startswith (drop i (xs @ ys)) sep \<Longrightarrow>
    \<exists>w ps. split_from sep cur (xs @ ys) = (rev cur @ xs @ w) # ps"
proof (induction xs arbitrary: cur)
  case Nil
  show ?case
  proof (cases ys)
    case Nil
    then show ?thesis by simp
  next
    case (Cons y ys')
    show ?thesis
    proof (cases "sep \<noteq> [] \<and> startswith (y # ys') sep")
      case True
      then show ?thesis using Cons by simp
    next
      case False
      have "\<exists>w ps. split_from sep (y # cur) ys' = (rev (y # cur) @ w) # ps"
      proof (induction ys' arbitrary: y cur)
        case Nil
        then show ?case by simp
      next
        case (Cons z zs)
        show ?case
        proof (cases "sep \<noteq> [] \<and> startswith (z # zs) sep")
          case True
          then show ?thesis by simp
        next
          case False
          from Cons [of z "y # cur"] obtain w ps
            where "split_from sep (z # y # cur) zs = (rev (z # y # cur) @ w) # ps" by blast
          then show ?thesis using False by auto
        qed
      qed
      then show ?thesis using False Cons by auto
    qed
  qed
next
  case (Cons x xs)
  from Cons.prems have "\<not> startswith (x # xs @ ys) sep" by fastforce
  moreover have "\<forall>i<length xs. \<not> startswith (drop i (xs @ ys)) sep"
    using Cons.prems by fastforce
  ultimately show ?case using Cons.IH [of "x # cur"] by auto
qed


lemma contains_drop:
  "sep \<noteq> [] \<Longrightarrow> startswith (drop i s) sep \<Longrightarrow> contains s sep"
proof (induction s arbitrary: i)
  case Nil
  then show ?case by (simp add: startswith_def)
next
  case (Cons c cs)
  show ?case
  proof (cases i)
    case 0
    then show ?thesis using Cons.prems by simp
  next
    case (Suc n)
    then show ?thesis using Cons.IH [of n] Cons.prems by simp
  qed
qed

lemma startswith_nth:
  assumes "startswith s sep" and "j < length sep"
  shows "s ! j = sep ! j"
proof -
  have "take (length sep) s ! j = sep ! j" using assms(1) by (simp add: startswith_def)
  then show ?thesis using assms(2) by simp
qed

lemma startswith_length:
  assumes "startswith s sep"
  shows "length sep \<le> length s"
proof -
  have "length (take (length sep) s) = length sep" using assms by (simp add: startswith_def)
  then show ?thesis by simp
qed

lemma startswith_inside:
  assumes "startswith (drop i (xs @ ys)) sep" and "i + length sep \<le> length xs"
  shows "startswith (drop i xs) sep"
  using assms by (simp add: startswith_def)

lemma startswith_drop_nth:
  assumes "startswith (drop i s) sep" and "j < length sep"
  shows "s ! (i + j) = sep ! j"
proof -
  have "i + j < length s" using startswith_length [OF assms(1)] assms(2) by simp
  then have "drop i s ! j = s ! (i + j)" by simp
  then show ?thesis using startswith_nth [OF assms] by simp
qed

lemma no_marker_before_unit:
  assumes nc: "\<not> contains mid ''EFermi =''" and i: "i < length (mid @ ''eV'')"
  shows "\<not> startswith (drop i ((mid @ ''eV'') @ post)) ''EFermi =''"
proof
  let ?M = "''EFermi =''"
  define s where "s = (mid @ ''eV'') @ post"
  assume "startswith (drop i ((mid @ ''eV'') @ post)) ?M"
  then have sw: "startswith (drop i s) ?M" by (simp add: s_def)
  have nth: "s ! (i + j) = ?M ! j" if "j < 8" for j
    using startswith_drop_nth [OF sw, of j] that by simp
  have e: "s ! length mid = CHR ''e''" by (simp add: s_def nth_append)
  have v: "s ! Suc (length mid) = CHR ''V''" by (simp add: s_def nth_append)
  consider (inside) "i + 8 \<le> length mid" | (ends) "i + 8 = Suc (length mid)"
    | (covers) "i \<le> Suc (length mid)" "Suc (length mid) < i + 8"
    using i by fastforce
  then show False
  proof cases
    case inside
    then have "startswith (drop i mid) ?M"
      using startswith_inside [of i mid "''eV'' @ post" ?M] sw by (simp add: s_def)
    then show False using nc contains_drop [of ?M i mid] by simp
  next
    case ends
    then have "i + 7 = length mid" by simp
    then have "s ! length mid = ?M ! 7" using nth [of 7] by simp
    then show False using e by simp
  next
    case covers
    define j where "j = Suc (length mid) - i"
    have j: "j < 8" "i + j = Suc (length mid)" using covers by (simp_all add: j_def)
    then have "?M ! j = CHR ''V''" using nth [of j] v by simp
    moreover have "?M ! j \<in> set ?M" using j(1) by (intro nth_mem) simp
    ultimately show False by auto
  qed
qed

lemma read_dos_fermi_absent:
  assumes "\<not> contains header ''EFermi =''"
  shows "read_dos_fermi float_of header = Inl IndexError"
  using assms by (simp add: read_dos_fermi_def split_def split_from_absent item_def)

lemma read_dos_fermi_between:
  assumes first: "\<not> contains (pre @ ''EFermi '') ''EFermi =''"
    and mid: "\<not> contains mid ''EFermi =''"
    and unit: "\<not> contains (mid @ ''e'') ''eV''"
  shows "read_dos_fermi float_of (pre @ ''EFermi ='' @ mid @ ''eV'' @ post)
    = float_or_raise float_of (strip mid)"
proof -
  let ?M = "''EFermi =''"
  let ?rest = "(mid @ ''eV'') @ post"
  have s1: "split_from ?M [] (pre @ ?M @ ?rest) = pre # split_from ?M [] ?rest"
    using split_from_first [of ?M pre "[]" ?rest] first by simp
  have "\<forall>i<length (mid @ ''eV''). \<not> startswith (drop i ?rest) ?M"
    using no_marker_before_unit [OF mid] by blast
  then obtain w ps where s2: "split_from ?M [] ?rest = ((mid @ ''eV'') @ w) # ps"
    using split_from_keeps_prefix [of "mid @ ''eV''" post ?M "[]"] by auto
  have s3: "split_from ''eV'' [] (mid @ ''eV'' @ w) = mid # split_from ''eV'' [] w"
    using split_from_first [of "''eV''" mid "[]" w] unit by simp
  show ?thesis
    using s1 s2 s3 by (simp add: read_dos_fermi_def split_def item_def)
qed

lemma read_dos_fermi_no_unit:
  assumes first: "\<not> contains (pre @ ''EFermi '') ''EFermi =''"
    and rest: "\<not> contains rest ''EFermi =''"
    and unit: "\<not> contains rest ''eV''"
  shows "read_dos_fermi float_of (pre @ ''EFermi ='' @ rest)
    = float_or_raise float_of (strip rest)"
proof -
  let ?M = "''EFermi =''"
  have s1: "split_from ?M [] (pre @ ?M @ rest) = pre # split_from ?M [] rest"
    using split_from_first [of ?M pre "[]" rest] first by simp
  have s2: "split_from ?M [] rest = [rest]"
    using split_from_absent [OF rest, of "[]"] by simp
  have s3: "split_from ''eV'' [] rest = [rest]"
    using split_from_absent [OF unit, of "[]"] by simp
  show ?thesis
    using s1 s2 s3 by (simp add: read_dos_fermi_def split_def item_def)
qed


lemma contains_length: "contains s sep \<Longrightarrow> length sep \<le> length s"
  by (induction s) (auto dest: startswith_length)

lemma startswith_extend: "startswith s sep \<Longrightarrow> startswith (s @ t) sep"
  using startswith_length [of s sep] by (simp add: startswith_def)

lemma contains_first:
  assumes "sep \<noteq> []"
  shows "contains s sep \<Longrightarrow> \<exists>pre rest. s = pre @ sep @ rest \<and> \<not> contains (pre @ butlast sep) sep"
proof (induction s)
  case Nil
  then show ?case using assms by simp
next
  case (Cons c cs)
  show ?case
  proof (cases "startswith (c # cs) sep")
    case True
    then have "c # cs = [] @ sep @ drop (length sep) (c # cs)"
      by (metis append_Nil append_take_drop_id startswith_def)
    moreover have "\<not> contains ([] @ butlast sep) sep"
    proof
      assume "contains ([] @ butlast sep) sep"
      then have "contains (butlast sep) sep" by simp
      then have "length sep \<le> length (butlast sep)" by (rule contains_length)
      moreover have "length (butlast sep) < length sep"
        using assms by (cases sep) simp_all
      ultimately show False by arith
    qed
    ultimately show ?thesis by blast
  next
    case False
    then have "contains cs sep" using Cons.prems by simp
    then obtain pre rest where cs: "cs = pre @ sep @ rest"
      and nc: "\<not> contains (pre @ butlast sep) sep" using Cons.IH by blast
    have "\<not> startswith (c # pre @ butlast sep) sep"
    proof
      assume "startswith (c # pre @ butlast sep) sep"
      then have "startswith ((c # pre @ butlast sep) @ (last sep # rest)) sep"
        by (rule startswith_extend)
      moreover have "butlast sep @ last sep # rest = sep @ rest"
        using assms by (metis append_Cons append_Nil append_assoc append_butlast_last_id)
      then have "(c # pre @ butlast sep) @ (last sep # rest) = c # cs"
        using cs by simp
      ultimately show False using False by simp
    qed
    then have "\<not> contains ((c # pre) @ butlast sep) sep" using nc by simp
    moreover have "c # cs = (c # pre) @ sep @ rest" using cs by simp
    ultimately show ?thesis by blast
  qed
qed

lemma float_or_raise_not_index: "float_or_raise float_of s \<noteq> Inl IndexError"
  by (simp add: float_or_raise_def split: option.split)

lemma split_from_nonempty: "split_from sep cur s \<noteq> []"
  by (induction sep cur s rule: split_from.induct) auto

lemma read_dos_fermi_present:
  assumes "contains header ''EFermi =''"
  shows "read_dos_fermi float_of header \<noteq> Inl IndexError"
proof -
  let ?M = "''EFermi =''"
  from contains_first [OF _ assms] obtain pre rest where h: "header = pre @ ?M @ rest"
    and nc: "\<not> contains (pre @ butlast ?M) ?M" by auto
  have s1: "split_from ?M [] header = pre # split_from ?M [] rest"
    using split_from_first [of ?M pre "[]" rest] nc h by simp
  obtain p ps where s2: "split_from ?M [] rest = p # ps"
    using split_from_nonempty [of ?M "[]" rest] by (cases "split_from ?M [] rest") auto
  obtain q qs where s3: "split_from ''eV'' [] p = q # qs"
    using split_from_nonempty [of "''eV''" "[]" p] by (cases "split_from ''eV'' [] p") auto
  show ?thesis
    using s1 s2 s3 by (simp add: read_dos_fermi_def split_def item_def float_or_raise_not_index)
qed

lemma split_from_before_after:
  "sep \<noteq> [] \<Longrightarrow> split_from sep cur s
     = (rev cur @ before s sep) # (case after s sep of None \<Rightarrow> [] | Some r \<Rightarrow> split_from sep [] r)"
proof (induction sep cur s rule: split_from.induct)
  case (1 sep cur)
  then show ?case by simp
next
  case (2 sep cur c cs)
  show ?case
  proof (cases "startswith (c # cs) sep")
    case True
    then show ?thesis using "2.prems" by simp
  next
    case False
    then show ?thesis using "2.IH"(2) "2.prems" by simp
  qed
qed

lemma after_None_iff: "sep \<noteq> [] \<Longrightarrow> after s sep = None \<longleftrightarrow> \<not> contains s sep"
  by (induction s) auto

lemma after_Some_decomp:
  "after s sep = Some r \<Longrightarrow> s = before s sep @ sep @ r"
proof (induction s)
  case Nil
  then show ?case by simp
next
  case (Cons c cs)
  show ?case
  proof (cases "startswith (c # cs) sep")
    case True
    have b: "before (c # cs) sep = []" using True by simp
    have r: "r = drop (length sep) (c # cs)" using True Cons.prems by simp
    have "c # cs = sep @ drop (length sep) (c # cs)"
      using True by (metis append_take_drop_id startswith_def)
    then show ?thesis unfolding b r append_Nil .
  next
    case False
    then show ?thesis using Cons by simp
  qed
qed

lemma before_first:
  "sep \<noteq> [] \<Longrightarrow> after s sep = Some r \<Longrightarrow> \<not> contains (before s sep @ butlast sep) sep"
proof (induction s)
  case Nil
  then show ?case by simp
next
  case (Cons c cs)
  show ?case
  proof (cases "startswith (c # cs) sep")
    case True
    have "\<not> contains (butlast sep) sep"
    proof
      assume "contains (butlast sep) sep"
      then have "length sep \<le> length (butlast sep)" by (rule contains_length)
      moreover have "length (butlast sep) < length sep"
        using Cons.prems(1) by (cases sep) simp_all
      ultimately show False by arith
    qed
    then show ?thesis using True by simp
  next
    case False
    then have r: "after cs sep = Some r" using Cons.prems by simp
    then have nc: "\<not> contains (before cs sep @ butlast sep) sep"
      using Cons.IH Cons.prems(1) by simp
    have cs: "cs = before cs sep @ sep @ r" using r by (rule after_Some_decomp)
    have "\<not> startswith (c # before cs sep @ butlast sep) sep"
    proof
      assume "startswith (c # before cs sep @ butlast sep) sep"
      then have sw: "startswith ((c # before cs sep @ butlast sep) @ (last sep # r)) sep"
        by (rule startswith_extend)
      have e1: "butlast sep @ last sep # r = sep @ r"
        using Cons.prems(1) by (metis append_Cons append_Nil append_assoc append_butlast_last_id)
      have "(c # before cs sep @ butlast sep) @ (last sep # r)
          = c # (before cs sep @ (butlast sep @ last sep # r))" by simp
      also have "\<dots> = c # (before cs sep @ sep @ r)" by (simp only: e1)
      also have "\<dots> = c # cs" using cs [symmetric] by simp
      finally have "(c # before cs sep @ butlast sep) @ (last sep # r) = c # cs" .
      then show False using sw False by simp
    qed
    then show ?thesis using False nc by simp
  qed
qed

lemma read_dos_fermi_text:
  "read_dos_fermi float_of header =
     (case after header ''EFermi ='' of
        None \<Rightarrow> Inl IndexError
      | Some rest \<Rightarrow> float_or_raise float_of (strip (before (before rest ''EFermi ='') ''eV'')))"
proof (cases "after header ''EFermi =''")
  case None
  then show ?thesis
    by (simp add: read_dos_fermi_def split_def item_def
        split_from_before_after [of "''EFermi =''" "[]" header])
next
  case (Some rest)
  have s1: "split_from ''EFermi ='' [] header
      = before header ''EFermi ='' # split_from ''EFermi ='' [] rest"
    using Some by (simp add: split_from_before_after [of "''EFermi =''" "[]" header])
  obtain ps where s2: "split_from ''EFermi ='' [] rest = before rest ''EFermi ='' # ps"
    by (simp add: split_from_before_after [of "''EFermi =''" "[]" rest])
  obtain qs where s3: "split_from ''eV'' [] (before rest ''EFermi ='')
      = before (before rest ''EFermi ='') ''eV'' # qs"
    by (simp add: split_from_before_after [of "''eV''" "[]" "before rest ''EFermi =''"])
  show ?thesis
    using Some s1 s2 s3 by (simp add: read_dos_fermi_def split_def item_def)
qed


lemma before_absent: "\<not> contains s sep \<Longrightarrow> before s sep = s"
  by (induction s) auto

lemma after_absent: "\<not> contains s sep \<Longrightarrow> after s sep = None"
  by (induction s) auto

text \<open>
  C8, as the code has it. The reader raises \<open>IndexError\<close> exactly when the header does not
  contain \<open>EFermi =\<close>. Otherwise it takes the text behind the first \<open>EFermi =\<close> up to the
  next \<open>EFermi =\<close> or \<open>eV\<close>, whichever comes first, or up to the end of the header when
  neither follows; it returns \<open>float\<close> of that text stripped, and raises \<open>ValueError\<close>
  when that text is no number. \<open>after\<close> and \<open>before\<close> are what their names say: a text
  without the separator has nothing behind it and is all before it, and otherwise the text
  is what is before the separator, the separator at its first occurrence, and what is
  behind it. In particular, for a header \<open>pre EFermi = mid eV post\<close> with the marker first
  occurring behind \<open>pre\<close>, no second marker in \<open>mid\<close> and the unit first occurring behind
  \<open>mid\<close>, the text is \<open>mid\<close>; and when neither the unit nor a second marker follows the
  first marker, the text is the whole rest of the header.
\<close>

theorem read_dos_fermi_result:
  "read_dos_fermi float_of header =
     (case after header ''EFermi ='' of
        None \<Rightarrow> Inl IndexError
      | Some rest \<Rightarrow>
          (case float_of (strip (before (before rest ''EFermi ='') ''eV'')) of
             None \<Rightarrow> Inl ValueError
           | Some v \<Rightarrow> Inr v)) \<and>
   (read_dos_fermi float_of header = Inl IndexError \<longleftrightarrow> \<not> contains header ''EFermi ='') \<and>
   (\<not> contains s sep \<longrightarrow> after s sep = None \<and> before s sep = s) \<and>
   (sep \<noteq> [] \<and> after s sep = Some r \<longrightarrow>
      s = before s sep @ sep @ r \<and> \<not> contains (before s sep @ butlast sep) sep) \<and>
   (\<not> contains (pre @ ''EFermi '') ''EFermi ='' \<and> \<not> contains mid ''EFermi =''
      \<and> \<not> contains (mid @ ''e'') ''eV'' \<longrightarrow>
    read_dos_fermi float_of (pre @ ''EFermi ='' @ mid @ ''eV'' @ post)
      = (case float_of (strip mid) of None \<Rightarrow> Inl ValueError | Some v \<Rightarrow> Inr v)) \<and>
   (\<not> contains (pre @ ''EFermi '') ''EFermi ='' \<and> \<not> contains rest ''EFermi =''
      \<and> \<not> contains rest ''eV'' \<longrightarrow>
    read_dos_fermi float_of (pre @ ''EFermi ='' @ rest)
      = (case float_of (strip rest) of None \<Rightarrow> Inl ValueError | Some v \<Rightarrow> Inr v))"
proof -
  have a: "read_dos_fermi float_of header =
     (case after header ''EFermi ='' of
        None \<Rightarrow> Inl IndexError
      | Some rest \<Rightarrow>
          (case float_of (strip (before (before rest ''EFermi ='') ''eV'')) of
             None \<Rightarrow> Inl ValueError
           | Some v \<Rightarrow> Inr v))"
    by (simp add: read_dos_fermi_text float_or_raise_def split: option.split)
  have b: "read_dos_fermi float_of header = Inl IndexError \<longleftrightarrow> \<not> contains header ''EFermi =''"
    using read_dos_fermi_absent [of header float_of] read_dos_fermi_present [of header float_of]
    by blast
  have c: "after s sep = None \<and> before s sep = s" if "\<not> contains s sep"
    using that by (simp add: before_absent after_absent)
  have d: "s = before s sep @ sep @ r \<and> \<not> contains (before s sep @ butlast sep) sep"
    if "sep \<noteq> []" "after s sep = Some r"
    using that after_Some_decomp [of s sep r] before_first [of sep s r] by blast
  have e: "read_dos_fermi float_of (pre @ ''EFermi ='' @ mid @ ''eV'' @ post)
      = (case float_of (strip mid) of None \<Rightarrow> Inl ValueError | Some v \<Rightarrow> Inr v)"
    if "\<not> contains (pre @ ''EFermi '') ''EFermi =''" "\<not> contains mid ''EFermi =''"
      "\<not> contains (mid @ ''e'') ''eV''"
    using read_dos_fermi_between [OF that] by (simp add: float_or_raise_def)
  have f: "read_dos_fermi float_of (pre @ ''EFermi ='' @ rest)
      = (case float_of (strip rest) of None \<Rightarrow> Inl ValueError | Some v \<Rightarrow> Inr v)"
    if "\<not> contains (pre @ ''EFermi '') ''EFermi =''" "\<not> contains rest ''EFermi =''"
      "\<not> contains rest ''eV''"
    using read_dos_fermi_no_unit [OF that] by (simp add: float_or_raise_def)
  show ?thesis using a b c d e f by blast
qed

lemmas reader_eval = read_dos_fermi_def split_def item_def startswith_def strip_def is_space_def
  float_or_raise_def float_decimal_def is_digit_def digits_value_def digit_value_def

theorem read_dos_fermi_result_witness:
  "\<not> contains ''#  E (eV)   dos(E)     Int dos(E)'' ''EFermi ='' \<and>
   after ''#  E (eV)   dos(E)     Int dos(E)'' ''EFermi ='' = None \<and>
   read_dos_fermi float_decimal ''#  E (eV)   dos(E)     Int dos(E)'' = Inl IndexError \<and>
   after ''# EFermi = 1.5 EFermi = 2.5 eV'' ''EFermi ='' = Some '' 1.5 EFermi = 2.5 eV'' \<and>
   ''# EFermi = 1.5 EFermi = 2.5 eV''
     = before ''# EFermi = 1.5 EFermi = 2.5 eV'' ''EFermi ='' @ ''EFermi ='' @ '' 1.5 EFermi = 2.5 eV'' \<and>
   before (before '' 1.5 EFermi = 2.5 eV'' ''EFermi ='') ''eV'' = '' 1.5 '' \<and>
   read_dos_fermi float_decimal ''# EFermi = 1.5 EFermi = 2.5 eV'' = Inr (Finite (3 / 2)) \<and>
   \<not> contains (''#  E (eV)   dos(E)     Int dos(E) '' @ ''EFermi '') ''EFermi ='' \<and>
   \<not> contains ''   12.345 '' ''EFermi ='' \<and>
   \<not> contains (''   12.345 '' @ ''e'') ''eV'' \<and>
   read_dos_fermi float_decimal
     (''#  E (eV)   dos(E)     Int dos(E) '' @ ''EFermi ='' @ ''   12.345 '' @ ''eV'' @ [CHR 0x0A])
     = Inr (Finite (12345 / 1000)) \<and>
   \<not> contains ''  abc'' ''EFermi ='' \<and> \<not> contains ''  abc'' ''eV'' \<and>
   read_dos_fermi float_decimal (''#  E (eV)   dos(E)     Int dos(E) '' @ ''EFermi ='' @ ''  abc'')
     = Inl ValueError"
proof -
  have a: "\<not> contains ''#  E (eV)   dos(E)     Int dos(E)'' ''EFermi =''"
    by (simp add: startswith_def)
  have b: "\<not> contains (''#  E (eV)   dos(E)     Int dos(E) '' @ ''EFermi '') ''EFermi =''"
    by (simp add: startswith_def)
  have c: "\<not> contains ''   12.345 '' ''EFermi =''" "\<not> contains (''   12.345 '' @ ''e'') ''eV''"
    by (simp_all add: startswith_def)
  have d: "\<not> contains ''  abc'' ''EFermi =''" "\<not> contains ''  abc'' ''eV''"
    by (simp_all add: startswith_def)
  have v: "float_decimal (strip ''   12.345 '') = Some (Finite (12345 / 1000))"
    by (simp add: reader_eval)
  have w: "float_decimal (strip ''  abc'') = None"
    by (simp add: reader_eval)
  have two: "after ''# EFermi = 1.5 EFermi = 2.5 eV'' ''EFermi ='' = Some '' 1.5 EFermi = 2.5 eV''"
    by (simp add: startswith_def)
  have piece: "before (before '' 1.5 EFermi = 2.5 eV'' ''EFermi ='') ''eV'' = '' 1.5 ''"
    by (simp add: startswith_def)
  have x: "float_decimal (strip '' 1.5 '') = Some (Finite (3 / 2))"
    by (simp add: reader_eval)
  have sep: "''EFermi ='' \<noteq> []" by simp
  show ?thesis
    using a b c d v w two piece x sep
      read_dos_fermi_result [where float_of = float_decimal
        and header = "''#  E (eV)   dos(E)     Int dos(E)''"
        and s = "''#  E (eV)   dos(E)     Int dos(E)''" and sep = "''EFermi =''"
        and pre = "''#  E (eV)   dos(E)     Int dos(E) ''"
        and mid = "''   12.345 ''" and post = "[CHR 0x0A]" and rest = "''  abc''"]
      read_dos_fermi_result [where float_of = float_decimal
        and header = "''# EFermi = 1.5 EFermi = 2.5 eV''"
        and s = "''# EFermi = 1.5 EFermi = 2.5 eV''" and sep = "''EFermi =''"
        and r = "'' 1.5 EFermi = 2.5 eV''"]
    by simp
qed

text \<open>
  C8 as stated fails: a header with the marker and a number but without the unit \<open>eV\<close> is
  read without any error.
\<close>

theorem read_dos_fermi_counterexample:
  "\<not> contains ''# EFermi =   12.345'' ''eV'' \<and>
   read_dos_fermi float_decimal ''# EFermi =   12.345'' = Inr (Finite (12345 / 1000))"
  by (simp add: reader_eval)

subsection \<open>The rows of the band file\<close>

lemma fold_data_lines_step:
  "fold data_lines_step lines acc = acc @ map strip (filter data_line lines)"
  by (induction lines arbitrary: acc) (simp_all add: data_lines_step_def data_line_def Let_def)

lemma float_all_numeric:
  "list_all (is_float float_of) xs \<Longrightarrow> float_all float_of xs = Inr (map (\<lambda>x. the (float_of x)) xs)"
  by (induction xs) (auto simp add: float_or_raise_def is_float_def)

lemma float_all_not_numeric:
  "\<not> list_all (is_float float_of) xs \<Longrightarrow> float_all float_of xs = Inl ValueError"
  by (induction xs) (auto simp add: float_or_raise_def is_float_def split: option.split sum.split)

lemma parse_rows_step_wide:
  assumes "wide l" and "list_all (is_float float_of) (split_ws l)"
  shows "parse_rows float_of (l # ls) data
    = parse_rows float_of ls (data @ [map (\<lambda>x. the (float_of x)) (split_ws l)])"
  using assms by (simp add: wide_def Let_def float_all_numeric)

lemma parse_rows_step_narrow:
  assumes "\<not> wide l"
  shows "parse_rows float_of (l # ls) data = parse_rows float_of ls data"
  using assms by (simp add: wide_def Let_def)

lemma parse_rows_step_fail:
  assumes "wide l" and "\<not> list_all (is_float float_of) (split_ws l)"
  shows "parse_rows float_of (l # ls) data = Inl ValueError"
  using assms by (simp add: wide_def Let_def float_all_not_numeric)

lemma parse_rows_numeric:
  "list_all (\<lambda>l. list_all (is_float float_of) (split_ws l)) (filter wide ls) \<Longrightarrow>
   parse_rows float_of ls data
     = Inr (data @ map (\<lambda>l. map (\<lambda>x. the (float_of x)) (split_ws l)) (filter wide ls))"
proof (induction ls arbitrary: data)
  case Nil
  then show ?case by simp
next
  case (Cons l ls)
  show ?case
  proof (cases "wide l")
    case False
    then show ?thesis
      using Cons.IH [of data] Cons.prems by (simp add: parse_rows_step_narrow [OF False] del: parse_rows.simps)
  next
    case True
    then have num: "list_all (is_float float_of) (split_ws l)"
      and rest: "list_all (\<lambda>l. list_all (is_float float_of) (split_ws l)) (filter wide ls)"
      using Cons.prems by simp_all
    show ?thesis
      using True Cons.IH [OF rest] by (simp add: parse_rows_step_wide [OF True num] del: parse_rows.simps)
  qed
qed

lemma parse_rows_not_numeric:
  "\<not> list_all (\<lambda>l. list_all (is_float float_of) (split_ws l)) (filter wide ls) \<Longrightarrow>
   parse_rows float_of ls data = Inl ValueError"
proof (induction ls arbitrary: data)
  case Nil
  then show ?case by simp
next
  case (Cons l ls)
  show ?case
  proof (cases "wide l")
    case False
    then show ?thesis
      using Cons.IH [of data] Cons.prems by (simp add: parse_rows_step_narrow [OF False] del: parse_rows.simps)
  next
    case True
    show ?thesis
    proof (cases "list_all (is_float float_of) (split_ws l)")
      case False
      then show ?thesis by (simp add: parse_rows_step_fail [OF True] del: parse_rows.simps)
    next
      case num: True
      then have "\<not> list_all (\<lambda>l. list_all (is_float float_of) (split_ws l)) (filter wide ls)"
        using Cons.prems True by simp
      then show ?thesis
        using Cons.IH by (simp add: parse_rows_step_wide [OF True num] del: parse_rows.simps)
    qed
  qed
qed

lemma filter_wide_data_lines:
  "filter wide (map strip (filter data_line lines)) = map strip (filter retained lines)"
  by (induction lines) (simp_all add: wide_def data_line_def retained_def)

lemma numeric_retained:
  "list_all (\<lambda>l. list_all (is_float float_of) (split_ws l)) (map strip (filter retained lines))
     = list_all (fields_numeric float_of) (filter retained lines)"
  by (simp add: list_all_iff fields_numeric_def)

lemma data_rows_numeric:
  assumes "list_all (fields_numeric float_of) (filter retained lines)"
  shows "data_rows float_of lines = Inr (map (row_of float_of) (filter retained lines))"
proof -
  have "list_all (\<lambda>l. list_all (is_float float_of) (split_ws l))
      (filter wide (map strip (filter data_line lines)))"
    using assms by (simp add: filter_wide_data_lines numeric_retained)
  from parse_rows_numeric [OF this, of "[]"] show ?thesis
    by (simp add: data_rows_def fold_data_lines_step filter_wide_data_lines row_of_def comp_def)
qed

lemma data_rows_not_numeric:
  assumes "\<not> list_all (fields_numeric float_of) (filter retained lines)"
  shows "data_rows float_of lines = Inl ValueError"
proof -
  have "\<not> list_all (\<lambda>l. list_all (is_float float_of) (split_ws l))
      (filter wide (map strip (filter data_line lines)))"
    using assms by (simp add: filter_wide_data_lines numeric_retained)
  from parse_rows_not_numeric [OF this, of "[]"] show ?thesis
    by (simp add: data_rows_def fold_data_lines_step)
qed

lemma rectangular_map: "rectangular (map (map g) rows) = rectangular rows"
  by (cases rows) (simp_all add: rectangular_def list_all_iff)

lemma rows_as_fields:
  "map (row_of float_of) ls = map (map (\<lambda>x. the (float_of x))) (map (\<lambda>l. split_ws (strip l)) ls)"
  by (simp add: row_of_def comp_def)

lemma rectangular_rows:
  "rectangular (map (row_of float_of) ls) = rectangular (map (\<lambda>l. split_ws (strip l)) ls)"
  by (simp only: rows_as_fields rectangular_map)

lemma read_bands_data_none:
  assumes "filter retained lines = []"
  shows "read_bands_data float_of lines = Inr (Array1 [])"
  using data_rows_numeric [of float_of lines] assms
  by (simp add: read_bands_data_def np_array_def)

lemma read_bands_data_array:
  assumes ne: "filter retained lines \<noteq> []"
    and num: "list_all (fields_numeric float_of) (filter retained lines)"
    and rect: "rectangular (map (\<lambda>l. split_ws (strip l)) (filter retained lines))"
  shows "read_bands_data float_of lines
    = Inr (Array2 (length (split_ws (strip (hd (filter retained lines)))))
        (map (row_of float_of) (filter retained lines)))"
proof -
  let ?kept = "filter retained lines"
  have "rectangular (map (row_of float_of) ?kept)"
    using rect by (simp only: rectangular_rows)
  moreover have "length (hd (map (row_of float_of) ?kept)) = length (split_ws (strip (hd ?kept)))"
    using ne by (simp add: hd_map row_of_def)
  ultimately show ?thesis
    using data_rows_numeric [OF num] ne by (simp add: read_bands_data_def np_array_def)
qed

lemma read_bands_data_value_error:
  assumes "\<not> (list_all (fields_numeric float_of) (filter retained lines)
      \<and> rectangular (map (\<lambda>l. split_ws (strip l)) (filter retained lines)))"
  shows "read_bands_data float_of lines = Inl ValueError"
proof (cases "list_all (fields_numeric float_of) (filter retained lines)")
  case False
  then show ?thesis
    using data_rows_not_numeric [of float_of lines] by (simp add: read_bands_data_def)
next
  case True
  let ?kept = "filter retained lines"
  have nrect: "\<not> rectangular (map (row_of float_of) ?kept)"
    using assms True by (simp add: rectangular_rows)
  then have "map (row_of float_of) ?kept \<noteq> []"
    by (auto simp add: rectangular_def)
  then show ?thesis
    using data_rows_numeric [OF True] nrect by (simp add: read_bands_data_def np_array_def)
qed

lemma filter_retained_idem: "filter retained (filter retained lines) = filter retained lines"
  by simp

lemma read_bands_data_retained:
  "read_bands_data float_of lines = read_bands_data float_of (filter retained lines)"
proof -
  let ?kept = "filter retained lines"
  consider (none) "?kept = []"
    | (ok) "?kept \<noteq> []" "list_all (fields_numeric float_of) ?kept"
        "rectangular (map (\<lambda>l. split_ws (strip l)) ?kept)"
    | (bad) "\<not> (list_all (fields_numeric float_of) ?kept
        \<and> rectangular (map (\<lambda>l. split_ws (strip l)) ?kept))"
    by blast
  then show ?thesis
  proof cases
    case none
    then show ?thesis
      using read_bands_data_none [of lines float_of] read_bands_data_none [of ?kept float_of]
      by simp
  next
    case ok
    then show ?thesis
      using read_bands_data_array [of lines float_of] read_bands_data_array [of ?kept float_of]
      by simp
  next
    case bad
    then show ?thesis
      using read_bands_data_value_error [of float_of lines]
        read_bands_data_value_error [of float_of ?kept]
      by simp
  qed
qed

text \<open>
  C10, as the code has it. With no retained line the reader returns the empty array of one
  dimension. With retained lines that all have the same number of fields, each of which
  \<open>float\<close> accepts, it returns the array of two dimensions whose rows are the retained
  lines, in file order, each row the values of all fields of its line. When \<open>float\<close>
  refuses a field of a retained line, or two retained lines differ in their number of
  fields, it raises \<open>ValueError\<close>. The lines that are not retained have no effect on the
  result: reading the retained lines alone gives the same result, so a line that is blank,
  a comment or has fewer than two fields is dropped and raises nothing.
\<close>

theorem read_bands_data_rows:
  "(filter retained lines = [] \<longrightarrow> read_bands_data float_of lines = Inr (Array1 [])) \<and>
   (filter retained lines \<noteq> [] \<and> list_all (fields_numeric float_of) (filter retained lines)
      \<and> rectangular (map (\<lambda>l. split_ws (strip l)) (filter retained lines)) \<longrightarrow>
    read_bands_data float_of lines
      = Inr (Array2 (length (split_ws (strip (hd (filter retained lines)))))
          (map (row_of float_of) (filter retained lines)))) \<and>
   (\<not> (list_all (fields_numeric float_of) (filter retained lines)
      \<and> rectangular (map (\<lambda>l. split_ws (strip l)) (filter retained lines))) \<longrightarrow>
    read_bands_data float_of lines = Inl ValueError) \<and>
   read_bands_data float_of lines = read_bands_data float_of (filter retained lines)"
  using read_bands_data_none [of lines float_of] read_bands_data_array [of lines float_of]
    read_bands_data_value_error [of float_of lines] read_bands_data_retained [of float_of lines]
  by blast

lemmas text_eval = strip_def is_space_def startswith_def split_ws_def

lemmas float_eval = float_decimal_def is_digit_def digits_value_def digit_value_def

theorem read_bands_data_rows_witness:
  "filter retained [''# k  E'', [], ''  '', ''0.0 1.5'', ''  0.25   2.5  '', ''7'', ''   # 1 2'']
     = [''0.0 1.5'', ''  0.25   2.5  ''] \<and>
   list_all (fields_numeric float_decimal) [''0.0 1.5'', ''  0.25   2.5  ''] \<and>
   rectangular (map (\<lambda>l. split_ws (strip l)) [''0.0 1.5'', ''  0.25   2.5  '']) \<and>
   read_bands_data float_decimal
     [''# k  E'', [], ''  '', ''0.0 1.5'', ''  0.25   2.5  '', ''7'', ''   # 1 2'']
     = Inr (Array2 2 [[Finite 0, Finite (3 / 2)], [Finite (1 / 4), Finite (5 / 2)]]) \<and>
   filter retained [''# k  E'', ''7''] = [] \<and>
   read_bands_data float_decimal [''# k  E'', ''7''] = Inr (Array1 []) \<and>
   \<not> list_all (fields_numeric float_decimal) (filter retained [''0.0 1.5'', ''0.5 abc'']) \<and>
   read_bands_data float_decimal [''0.0 1.5'', ''0.5 abc''] = Inl ValueError"
proof -
  have kept: "filter retained [''# k  E'', [], ''  '', ''0.0 1.5'', ''  0.25   2.5  '', ''7'', ''   # 1 2'']
      = [''0.0 1.5'', ''  0.25   2.5  '']"
    by (simp add: retained_def text_eval)
  have num: "list_all (fields_numeric float_decimal) [''0.0 1.5'', ''  0.25   2.5  '']"
    by (simp add: fields_numeric_def is_float_def text_eval float_eval)
  have rect: "rectangular (map (\<lambda>l. split_ws (strip l)) [''0.0 1.5'', ''  0.25   2.5  ''])"
    by (simp add: rectangular_def text_eval)
  have width: "length (split_ws (strip ''0.0 1.5'')) = 2"
    by (simp add: text_eval)
  have rows: "map (row_of float_decimal) [''0.0 1.5'', ''  0.25   2.5  '']
      = [[Finite 0, Finite (3 / 2)], [Finite (1 / 4), Finite (5 / 2)]]"
    by (simp add: row_of_def text_eval float_eval)
  have none: "filter retained [''# k  E'', ''7''] = []"
    by (simp add: retained_def text_eval)
  have kept2: "filter retained [''0.0 1.5'', ''0.5 abc''] = [''0.0 1.5'', ''0.5 abc'']"
    by (simp add: retained_def text_eval)
  have bad: "\<not> list_all (fields_numeric float_decimal) [''0.0 1.5'', ''0.5 abc'']"
    by (simp add: fields_numeric_def is_float_def text_eval float_eval)
  show ?thesis
    using kept num rect width rows none kept2 bad
      read_bands_data_rows [where float_of = float_decimal
        and lines = "[''# k  E'', [], ''  '', ''0.0 1.5'', ''  0.25   2.5  '', ''7'', ''   # 1 2'']"]
      read_bands_data_rows [where float_of = float_decimal and lines = "[''# k  E'', ''7'']"]
      read_bands_data_rows [where float_of = float_decimal and lines = "[''0.0 1.5'', ''0.5 abc'']"]
    by simp
qed

text \<open>
  C10 as stated fails: two retained lines of two and of three numeric fields are not
  returned; \<open>np.array\<close> raises \<open>ValueError\<close> on rows of different lengths.
\<close>

theorem read_bands_data_rows_counterexample:
  "filter retained [''0.0 1.5'', ''0.5 2.5 7''] = [''0.0 1.5'', ''0.5 2.5 7''] \<and>
   list_all (fields_numeric float_decimal) [''0.0 1.5'', ''0.5 2.5 7''] \<and>
   read_bands_data float_decimal [''0.0 1.5'', ''0.5 2.5 7''] = Inl ValueError"
proof -
  have kept: "filter retained [''0.0 1.5'', ''0.5 2.5 7''] = [''0.0 1.5'', ''0.5 2.5 7'']"
    by (simp add: retained_def text_eval)
  have num: "list_all (fields_numeric float_decimal) [''0.0 1.5'', ''0.5 2.5 7'']"
    by (simp add: fields_numeric_def is_float_def text_eval float_eval)
  have "\<not> rectangular (map (\<lambda>l. split_ws (strip l)) [''0.0 1.5'', ''0.5 2.5 7''])"
    by (simp add: rectangular_def text_eval)
  then have "read_bands_data float_decimal [''0.0 1.5'', ''0.5 2.5 7''] = Inl ValueError"
    using read_bands_data_value_error [of float_decimal "[''0.0 1.5'', ''0.5 2.5 7'']"] kept
    by simp
  then show ?thesis using kept num by simp
qed

subsection \<open>The scripts on band files of no row and of one row\<close>

lemma band_columns_one_dim: "band_columns (Array1 xs) = Inl IndexError"
  by (simp add: band_columns_def)

lemma retained_wide:
  assumes "l \<in> set (filter retained lines)"
  shows "2 \<le> length (split_ws (strip l))"
  using assms by (simp add: retained_def)

lemma spin_resolved_one_row:
  assumes one: "filter retained lines = [l]" and num: "fields_numeric float_of l"
  shows "spin_resolved_segments float_of sub_fermi lines
    = Inr [([row_of float_of l ! 0], [sub_fermi (row_of float_of l ! 1)])]"
proof -
  have w: "2 \<le> length (split_ws (strip l))"
    using retained_wide [of l lines] one by simp
  have "rectangular (map (\<lambda>l. split_ws (strip l)) (filter retained lines))"
    using one by (simp add: rectangular_def)
  then have "read_bands_data float_of lines
      = Inr (Array2 (length (split_ws (strip l))) [row_of float_of l])"
    using read_bands_data_array [of lines float_of] one num by simp
  moreover have "band_columns (Array2 (length (split_ws (strip l))) [row_of float_of l])
      = Inr ([row_of float_of l ! 0], [row_of float_of l ! 1])"
  proof -
    have "0 < length (split_ws (strip l))" "1 < length (split_ws (strip l))"
      using w by linarith+
    then show ?thesis by (simp add: band_columns_def del: length_greater_0_conv)
  qed
  moreover have "band_segments [k] [e] = [([k], [e])]" for k e :: float64
    by (simp add: segmenter_eval)
  ultimately show ?thesis by (simp add: spin_resolved_segments_def)
qed

text \<open>
  C4. An input of length 0 does not reach the segmenter. A band file without a retained
  line is read as the empty array of one dimension, on which \<open>data[:, 0]\<close> raises
  \<open>IndexError\<close>, in \<open>plot_spin_resolved_bands\<close> and, on the array of one dimension that
  \<open>np.loadtxt\<close> returns, in \<open>plot_bands_improved\<close>; yet both scripts go on to test
  \<open>len(k_coord) > 0\<close>. A band file with one retained line, of numeric fields, gives
  in \<open>plot_spin_resolved_bands\<close> exactly one segment, which holds that one sample.
\<close>

theorem empty_band_file_raises:
  "(filter retained lines = [] \<longrightarrow>
      read_bands_data float_of lines = Inr (Array1 []) \<and>
      spin_resolved_segments float_of sub_fermi lines = Inl IndexError \<and>
      plot_spin_resolved_bands_from float_of sub_fermi lines = Inl IndexError) \<and>
   plot_bands_improved_from sub_fermi (Array1 xs) = Inl IndexError \<and>
   (filter retained lines = [l] \<and> fields_numeric float_of l \<longrightarrow>
      spin_resolved_segments float_of sub_fermi lines
        = Inr [([row_of float_of l ! 0], [sub_fermi (row_of float_of l ! 1)])])"
  using read_bands_data_none [of lines float_of] spin_resolved_one_row [of lines l float_of sub_fermi]
  by (simp add: spin_resolved_segments_def plot_spin_resolved_bands_from_def
      plot_bands_improved_from_def band_columns_one_dim)

theorem empty_band_file_raises_witness:
  "filter retained [''# k  E'', [], ''7''] = [] \<and>
   read_bands_data float_decimal [''# k  E'', [], ''7''] = Inr (Array1 []) \<and>
   spin_resolved_segments float_decimal (\<lambda>e. e) [''# k  E'', [], ''7''] = Inl IndexError \<and>
   plot_spin_resolved_bands_from float_decimal (\<lambda>e. e) [''# k  E'', [], ''7''] = Inl IndexError \<and>
   plot_spin_resolved_bands_from float_decimal (\<lambda>e. e) [] = Inl IndexError \<and>
   plot_bands_improved_from (\<lambda>e. e) (Array1 []) = Inl IndexError \<and>
   filter retained [''# k  E'', ''0.5 1.5''] = [''0.5 1.5''] \<and>
   fields_numeric float_decimal ''0.5 1.5'' \<and>
   spin_resolved_segments float_decimal (\<lambda>e. e) [''# k  E'', ''0.5 1.5'']
     = Inr [([Finite (1 / 2)], [Finite (3 / 2)])]"
proof -
  have none: "filter retained [''# k  E'', [], ''7''] = []"
    by (simp add: retained_def text_eval)
  have one: "filter retained [''# k  E'', ''0.5 1.5''] = [''0.5 1.5'']"
    by (simp add: retained_def text_eval)
  have num: "fields_numeric float_decimal ''0.5 1.5''"
    by (simp add: fields_numeric_def is_float_def text_eval float_eval)
  have row: "row_of float_decimal ''0.5 1.5'' = [Finite (1 / 2), Finite (3 / 2)]"
    by (simp add: row_of_def text_eval float_eval)
  show ?thesis
    using none one num row
      empty_band_file_raises [where float_of = float_decimal and sub_fermi = "\<lambda>e. e"
        and lines = "[''# k  E'', [], ''7'']" and xs = "[]"]
      empty_band_file_raises [where float_of = float_decimal and sub_fermi = "\<lambda>e. e"
        and lines = "[]"]
      empty_band_file_raises [where float_of = float_decimal and sub_fermi = "\<lambda>e. e"
        and lines = "[''# k  E'', ''0.5 1.5'']" and l = "''0.5 1.5''"]
    by simp
qed

end
